theory Spec2Isabelle
  imports Main "HOL-Library.Word" "HOL-Library.AList"
begin

unbundle bit_operations_syntax

section \<open>Data model of frugy/types.py\<close>

text \<open>
  Bytes are 8-bit words, a \<^verbatim>\<open>bytes\<close> object is a list of them.  A Python \<^verbatim>\<open>str\<close> is the
  list of its Unicode code points (\<^verbatim>\<open>len\<close> counts code points, \<^verbatim>\<open>ord\<close> reads one).
  Python integers are unbounded: \<open>int\<close>.
\<close>

type_synonym byte = "8 word"
type_synonym str = "nat list"

datatype error =
    BitstructError          \<comment> \<open>\<^verbatim>\<open>bitstruct.Error\<close>: bad format, too few arguments, value out of range, too few bits\<close>
  | AlignmentError          \<comment> \<open>\<^verbatim>\<open>RuntimeError("Bitfield not aligned to bytes")\<close>\<close>
  | KeyError                \<comment> \<open>a failed dictionary lookup\<close>
  | TypeError
  | AttributeError
  | IndexError
  | ValueError
  | UnicodeEncodeError
  | UnicodeDecodeError
  | ChecksumError "byte list" "byte list"
      \<comment> \<open>\<^verbatim>\<open>RuntimeError('padding or checksum verify error (expected .., received ..')\<close>\<close>

text \<open>
  Field values.  A \<^verbatim>\<open>FixedField\<close> holds \<^verbatim>\<open>None\<close> (the constructor's default), an integer
  or a tuple of integers.  A \<^verbatim>\<open>StringField\<close> holds a \<^verbatim>\<open>str\<close>; the one operation of the
  class \<^verbatim>\<open>FruArea\<close> that stores something else in it is \<^verbatim>\<open>_set_area_length\<close>, which stores
  an integer whatever the class of the field named \<^verbatim>\<open>area_length\<close> is.
\<close>

datatype fixed_val = FNone | FInt int | FTuple "int list"

datatype str_val = SStr str | SInt int

datatype StringFmt = BIN | BCD_PLUS | ASCII_6BIT | ASCII_8BIT

fun StringFmt_value :: "StringFmt \<Rightarrow> int" where
  "StringFmt_value BIN = 0"
| "StringFmt_value BCD_PLUS = 1"
| "StringFmt_value ASCII_6BIT = 2"
| "StringFmt_value ASCII_8BIT = 3"

text \<open>
  The format string of a \<^verbatim>\<open>FixedField\<close> is kept parsed: \<^verbatim>\<open>'u4u4'\<close> is \<open>[4, 4]\<close>, the
  widths of its unsigned groups, in order.  Only formats made of \<^verbatim>\<open>u\<close> groups are
  modelled.
\<close>

datatype field =
    FixedField "nat list" fixed_val     \<comment> \<open>\<^verbatim>\<open>FixedField(format, value)\<close>\<close>
  | StringField str_val StringFmt       \<comment> \<open>\<^verbatim>\<open>StringField(value, format)\<close>\<close>

text \<open>What \<^verbatim>\<open>to_dict\<close> hands out: a tuple is exposed as a list.\<close>

datatype pyval = VNone | VInt int | VList "int list" | VStr str

section \<open>Helpers of the module\<close>

definition sizeAlign :: "int \<Rightarrow> int \<Rightarrow> int \<times> int" where
  "sizeAlign sz alignment =
     (let numPadBytes = (- sz) mod alignment in (numPadBytes, sz + numPadBytes))"

text \<open>
  \<^verbatim>\<open>zip_longest(*[iter(iterable)]*n, fillvalue=padvalue)\<close>: consecutive groups of \<open>n\<close>
  items, the last one filled up with the pad value; no group at all for an empty input.
\<close>

function grouper :: "nat \<Rightarrow> 'a list \<Rightarrow> 'a \<Rightarrow> 'a list list" where
  "grouper n xs padvalue =
     (if n = 0 \<or> xs = [] then []
      else (take n xs @ replicate (n - length xs) padvalue) # grouper n (drop n xs) padvalue)"
  by pat_completeness auto
termination
  by (relation "measure (\<lambda>(n, xs, p). length xs)") auto

declare grouper.simps [simp del]

section \<open>The bitstruct library, as far as the module uses it\<close>

text \<open>
  bitstruct builds a string of binary digits, most significant first, and turns it into
  bytes.  \<open>bits_of n v\<close> is \<^verbatim>\<open>bin(2 ** n + v)[3:]\<close>, \<open>nat_of_bits\<close> is \<^verbatim>\<open>int(bits, 2)\<close>.
\<close>

fun bits_of :: "nat \<Rightarrow> nat \<Rightarrow> bool list" where
  "bits_of 0 v = []"
| "bits_of (Suc n) v = bits_of n (v div 2) @ [odd v]"

definition nat_of_bits :: "bool list \<Rightarrow> nat" where
  "nat_of_bits bs = foldl (\<lambda>a b. 2 * a + (if b then 1 else 0)) 0 bs"

definition byte_of_bits :: "bool list \<Rightarrow> byte" where
  "byte_of_bits bs = word_of_nat (nat_of_bits bs)"

function bytes_of_bits :: "bool list \<Rightarrow> byte list" where
  "bytes_of_bits bs =
     (if bs = [] then [] else byte_of_bits (take 8 bs) # bytes_of_bits (drop 8 bs))"
  by pat_completeness auto
termination
  by (relation "measure length") auto

declare bytes_of_bits.simps [simp del]

definition bits_of_bytes :: "byte list \<Rightarrow> bool list" where
  "bits_of_bytes data = concat (map (\<lambda>b. bits_of 8 (unat b)) data)"

text \<open>
  The byte order of a format: most significant byte first unless the format string ends
  in \<^verbatim>\<open><\<close>.  With \<^verbatim>\<open><\<close>, \<^verbatim>\<open>pack_value\<close> appends the digits of a value byte by byte
  from its low end, and \<^verbatim>\<open>unpack_from_any\<close> collects them the same way.
\<close>

datatype byte_order = MSB_first | LSB_first

function lsb_pack_order :: "int \<Rightarrow> bool list \<Rightarrow> bool list" where
  "lsb_pack_order aligned_offset value_bits =
     (if aligned_offset > 0
      then drop (nat aligned_offset) value_bits
           @ lsb_pack_order (aligned_offset - 8) (take (nat aligned_offset) value_bits)
      else value_bits)"
  by pat_completeness auto
termination
  by (relation "measure (\<lambda>(a, v). nat a)") auto

declare lsb_pack_order.simps [simp del]

function lsb_unpack_order :: "int \<Rightarrow> bool list \<Rightarrow> bool list" where
  "lsb_unpack_order aligned_offset value_bits_tmp =
     (if aligned_offset > 0
      then take 8 (drop (nat aligned_offset) value_bits_tmp)
           @ lsb_unpack_order (aligned_offset - 8) (take (nat aligned_offset) value_bits_tmp)
      else value_bits_tmp)"
  by pat_completeness auto
termination
  by (relation "measure (\<lambda>(a, v). nat a)") auto

declare lsb_unpack_order.simps [simp del]

text \<open>An unsigned group of \<open>sz\<close> bits takes \<open>0 \<le> v \<le> 2 ^ sz - 1\<close>.\<close>

definition pack_u :: "nat \<Rightarrow> int \<Rightarrow> error + bool list" where
  "pack_u sz v =
     (if v < 0 \<or> v > 2 ^ sz - 1 then Inl BitstructError else Inr (bits_of sz (nat v)))"

definition pack_value :: "byte_order \<Rightarrow> bool list \<Rightarrow> bool list \<Rightarrow> bool list" where
  "pack_value bo bits value_bits =
     (case bo of
        MSB_first \<Rightarrow> bits @ value_bits
      | LSB_first \<Rightarrow>
          bits @ lsb_pack_order (int (length value_bits) - (8 - int (length bits mod 8))) value_bits)"

fun pack_any :: "byte_order \<Rightarrow> nat list \<Rightarrow> int list \<Rightarrow> bool list \<Rightarrow> error + bool list" where
  "pack_any bo [] args bits = Inr bits"
| "pack_any bo (sz # infos) [] bits = Inl BitstructError"
| "pack_any bo (sz # infos) (a # args) bits =
     (case pack_u sz a of
        Inl e \<Rightarrow> Inl e
      | Inr value_bits \<Rightarrow> pack_any bo infos args (pack_value bo bits value_bits))"

definition pad_tail :: "bool list \<Rightarrow> bool list" where
  "pad_tail bits =
     (let tail = length bits mod 8 in if tail \<noteq> 0 then bits @ replicate (8 - tail) False else bits)"

text \<open>
  \<^verbatim>\<open>bitstruct.pack(fmt, *args)\<close>: a group of width 0 is a bad format, fewer arguments
  than groups is an error, more are ignored.
\<close>

definition pack :: "byte_order \<Rightarrow> nat list \<Rightarrow> int list \<Rightarrow> error + byte list" where
  "pack bo infos args =
     (if 0 \<in> set infos then Inl BitstructError
      else if length args < length infos then Inl BitstructError
      else case pack_any bo infos args [] of
             Inl e \<Rightarrow> Inl e
           | Inr bits \<Rightarrow> Inr (bytes_of_bits (pad_tail bits)))"

fun unpack_from_any :: "byte_order \<Rightarrow> bool list \<Rightarrow> nat \<Rightarrow> nat list \<Rightarrow> int list" where
  "unpack_from_any bo bits offset [] = []"
| "unpack_from_any bo bits offset (sz # infos) =
     (let value_bits_tmp = take sz (drop offset bits);
          value_bits =
            (case bo of
               MSB_first \<Rightarrow> value_bits_tmp
             | LSB_first \<Rightarrow>
                 lsb_unpack_order (int sz - int ((offset + sz) mod 8)) value_bits_tmp)
      in int (nat_of_bits value_bits) # unpack_from_any bo bits (offset + sz) infos)"

definition unpack :: "byte_order \<Rightarrow> nat list \<Rightarrow> byte list \<Rightarrow> error + int list" where
  "unpack bo infos data =
     (if 0 \<in> set infos then Inl BitstructError
      else let bits = bits_of_bytes data in
        if length bits < sum_list infos then Inl BitstructError
        else Inr (unpack_from_any bo bits 0 infos))"

definition calcsize :: "nat list \<Rightarrow> error + nat" where
  "calcsize infos = (if 0 \<in> set infos then Inl BitstructError else Inr (sum_list infos))"


section \<open>Text: \<^verbatim>\<open>str.upper\<close>, \<^verbatim>\<open>str.encode('utf-8')\<close>, \<^verbatim>\<open>bytes.decode('utf-8')\<close>\<close>

text \<open>
  \<^verbatim>\<open>str.upper\<close> is a built-in of Python.  On ASCII text it maps \<^verbatim>\<open>a\<close>..\<^verbatim>\<open>z\<close> to
  \<^verbatim>\<open>A\<close>..\<^verbatim>\<open>Z\<close> and leaves every other character alone: \<open>ascii_upper\<close>.  On text with
  characters beyond ASCII it follows the case mapping of Unicode (some letters become
  several characters, some become ASCII letters); that mapping is not written out here
  but taken as the parameter \<open>upper\<close> of everything that upper-cases.  With Python's
  \<^verbatim>\<open>str.upper\<close> for \<open>upper\<close>, \<open>str_upper upper\<close> is \<^verbatim>\<open>str.upper\<close> on every string.
\<close>

definition ascii :: "str \<Rightarrow> bool" where
  "ascii s = list_all (\<lambda>c. c < 128) s"

definition ascii_upper :: "str \<Rightarrow> str" where
  "ascii_upper s = map (\<lambda>c. if 97 \<le> c \<and> c \<le> 122 then c - 32 else c) s"

definition str_upper :: "(str \<Rightarrow> str) \<Rightarrow> str \<Rightarrow> str" where
  "str_upper upper s = (if ascii s then ascii_upper s else upper s)"

text \<open>
  UTF-8, strict as Python's codec is: one to four bytes per code point, no surrogates
  (\<open>0xD800\<close>..\<open>0xDFFF\<close>), and the decoder refuses overlong forms, surrogates, code
  points above \<open>0x10FFFF\<close>, stray continuation bytes and truncated sequences.
\<close>

definition utf8_char :: "nat \<Rightarrow> error + byte list" where
  "utf8_char c =
     (if c < 0x80 then Inr [word_of_nat c]
      else if c < 0x800 then Inr [word_of_nat (0xC0 + c div 64), word_of_nat (0x80 + c mod 64)]
      else if 0xD800 \<le> c \<and> c \<le> 0xDFFF then Inl UnicodeEncodeError
      else if c < 0x10000 then
        Inr [word_of_nat (0xE0 + c div 4096), word_of_nat (0x80 + c div 64 mod 64),
             word_of_nat (0x80 + c mod 64)]
      else if c < 0x110000 then
        Inr [word_of_nat (0xF0 + c div 262144), word_of_nat (0x80 + c div 4096 mod 64),
             word_of_nat (0x80 + c div 64 mod 64), word_of_nat (0x80 + c mod 64)]
      else Inl UnicodeEncodeError)"

fun cat_results :: "(error + 'a list) list \<Rightarrow> error + 'a list" where
  "cat_results [] = Inr []"
| "cat_results (x # xs) =
     (case x of
        Inl e \<Rightarrow> Inl e
      | Inr a \<Rightarrow> (case cat_results xs of Inl e \<Rightarrow> Inl e | Inr b \<Rightarrow> Inr (a @ b)))"

definition utf8_encode :: "str \<Rightarrow> error + byte list" where
  "utf8_encode s = cat_results (map utf8_char s)"

definition cont :: "nat \<Rightarrow> bool" where
  "cont b = (0x80 \<le> b \<and> b \<le> 0xBF)"

text \<open>
  The decoder reads one character at a time: \<open>utf8_head b bs\<close> decodes the character
  that starts with the byte \<open>b\<close> and gives the number of continuation bytes it takes
  from \<open>bs\<close>.
\<close>

definition utf8_head :: "nat \<Rightarrow> nat list \<Rightarrow> (nat \<times> nat) option" where
  "utf8_head b bs =
     (if b < 0x80 then Some (b, 0)
      else if 0xC2 \<le> b \<and> b \<le> 0xDF then
        (case bs of
           c1 # t \<Rightarrow>
             if cont c1 then Some ((b - 0xC0) * 64 + (c1 - 0x80), 1) else None
         | _ \<Rightarrow> None)
      else if 0xE0 \<le> b \<and> b \<le> 0xEF then
        (case bs of
           c1 # c2 # t \<Rightarrow>
             if cont c1 \<and> cont c2 \<and> (b = 0xE0 \<longrightarrow> 0xA0 \<le> c1) \<and> (b = 0xED \<longrightarrow> c1 \<le> 0x9F)
             then Some ((b - 0xE0) * 4096 + (c1 - 0x80) * 64 + (c2 - 0x80), 2)
             else None
         | _ \<Rightarrow> None)
      else if 0xF0 \<le> b \<and> b \<le> 0xF4 then
        (case bs of
           c1 # c2 # c3 # t \<Rightarrow>
             if cont c1 \<and> cont c2 \<and> cont c3 \<and> (b = 0xF0 \<longrightarrow> 0x90 \<le> c1)
                \<and> (b = 0xF4 \<longrightarrow> c1 \<le> 0x8F)
             then Some ((b - 0xF0) * 262144 + (c1 - 0x80) * 4096 + (c2 - 0x80) * 64
                        + (c3 - 0x80), 3)
             else None
         | _ \<Rightarrow> None)
      else None)"

fun utf8_decode_nat :: "nat list \<Rightarrow> error + str" where
  "utf8_decode_nat [] = Inr []"
| "utf8_decode_nat (b # bs) =
     (case utf8_head b bs of
        None \<Rightarrow> Inl UnicodeDecodeError
      | Some (c, n) \<Rightarrow>
          (case utf8_decode_nat (drop n bs) of Inl e \<Rightarrow> Inl e | Inr r \<Rightarrow> Inr (c # r)))"

definition utf8_decode :: "byte list \<Rightarrow> error + str" where
  "utf8_decode bs = utf8_decode_nat (map unat bs)"

section \<open>FixedField\<close>

text \<open>The methods take the attributes of the object: \<open>format\<close> and \<open>val\<close>.\<close>

definition FixedField_size :: "nat list \<Rightarrow> error + int" where
  "FixedField_size format =
     (case calcsize format of
        Inl e \<Rightarrow> Inl e
      | Inr numBits \<Rightarrow>
          if numBits mod 8 \<noteq> 0 then Inl AlignmentError else Inr (int (numBits div 8)))"

text \<open>
  \<^verbatim>\<open>bitstruct.pack(self.format + '<', *self.value)\<close> for a tuple, and
  \<^verbatim>\<open>bitstruct.pack(self.format + '<', self.value)\<close> otherwise; the value \<^verbatim>\<open>None\<close> makes
  \<^verbatim>\<open>int(None)\<close> raise once the format and the number of arguments have been accepted and
  there is a first group to pack.
\<close>

fun FixedField_serialize :: "nat list \<Rightarrow> fixed_val \<Rightarrow> error + byte list" where
  "FixedField_serialize format (FTuple vs) = pack LSB_first format vs"
| "FixedField_serialize format (FInt v) = pack LSB_first format [v]"
| "FixedField_serialize format FNone =
     (if 0 \<in> set format then Inl BitstructError
      else if 1 < length format then Inl BitstructError
      else if format = [] then Inr []
      else Inl TypeError)"

text \<open>
  \<^verbatim>\<open>deserialize\<close> mutates the field and may raise: the model returns the outcome (the
  error, or the remainder of the input) together with the value the field holds
  afterwards.
\<close>

definition FixedField_deserialize ::
  "nat list \<Rightarrow> fixed_val \<Rightarrow> byte list \<Rightarrow> (error + byte list) \<times> fixed_val" where
  "FixedField_deserialize format v input =
     (case FixedField_size format of
        Inl e \<Rightarrow> (Inl e, v)
      | Inr n \<Rightarrow>
          (let tmp = take (nat n) input; remainder = drop (nat n) input in
           case unpack LSB_first format tmp of
             Inl e \<Rightarrow> (Inl e, v)
           | Inr result \<Rightarrow>
               if length result > 1 then (Inr remainder, FTuple result)
               else (case result of
                       [] \<Rightarrow> (Inl IndexError, v)
                     | r0 # _ \<Rightarrow> (Inr remainder, FInt r0))))"

section \<open>StringField\<close>

definition bcdplus_table :: "(nat \<times> int) list" where
  "bcdplus_table =
     [(48, 0), (49, 1), (50, 2), (51, 3), (52, 4), (53, 5), (54, 6), (55, 7),
      (56, 8), (57, 9), (32, 10), (45, 11), (46, 12)]"

definition bcdplus_lookup :: "nat \<Rightarrow> int option" where
  "bcdplus_lookup = map_of bcdplus_table"

definition bcdplus_lookup_rev :: "int \<Rightarrow> nat option" where
  "bcdplus_lookup_rev = map_of (map (\<lambda>(k, v). (v, k)) bcdplus_table)"

text \<open>\<^verbatim>\<open>len(val)\<close> of the stored value; an integer has no length.\<close>

fun py_len :: "str_val \<Rightarrow> error + int" where
  "py_len (SStr s) = Inr (int (length s))"
| "py_len (SInt i) = Inl TypeError"

definition size_plain :: "str_val \<Rightarrow> error + int" where
  "size_plain v = py_len v"

definition size_6bit :: "str_val \<Rightarrow> error + int" where
  "size_6bit v =
     (case py_len v of Inl e \<Rightarrow> Inl e | Inr l \<Rightarrow> Inr ((snd (sizeAlign l 4) div 4) * 3))"

definition size_bcd_plus :: "str_val \<Rightarrow> error + int" where
  "size_bcd_plus v =
     (case py_len v of Inl e \<Rightarrow> Inl e | Inr l \<Rightarrow> Inr (snd (sizeAlign l 2) div 2))"

definition StringField_size :: "str_val \<Rightarrow> StringFmt \<Rightarrow> error + int" where
  "StringField_size v format =
     (let size_fn = (case format of
                       BIN \<Rightarrow> size_plain
                     | BCD_PLUS \<Rightarrow> size_bcd_plus
                     | ASCII_6BIT \<Rightarrow> size_6bit
                     | ASCII_8BIT \<Rightarrow> size_plain)
      in case size_fn v of Inl e \<Rightarrow> Inl e | Inr n \<Rightarrow> Inr (n + 1))"

fun ser_plain :: "str_val \<Rightarrow> error + byte list" where
  "ser_plain (SStr s) = utf8_encode s"
| "ser_plain (SInt i) = Inl AttributeError"

definition ser_6bit_chunk :: "nat list \<Rightarrow> error + byte list" where
  "ser_6bit_chunk chunk =
     (let chunk1 = map (\<lambda>x. int x - 0x20) chunk;
          chunk2 = rev chunk1
      in case pack MSB_first [6, 6, 6, 6] chunk2 of
           Inl e \<Rightarrow> Inl e
         | Inr tmp \<Rightarrow> Inr (rev tmp))"

fun ser_6bit :: "(str \<Rightarrow> str) \<Rightarrow> str_val \<Rightarrow> error + byte list" where
  "ser_6bit upper (SStr s) = cat_results (map ser_6bit_chunk (grouper 4 (str_upper upper s) 32))"
| "ser_6bit upper (SInt i) = Inl AttributeError"

definition ser_bcd_plus_chunk :: "nat list \<Rightarrow> error + byte list" where
  "ser_bcd_plus_chunk chunk =
     (case those (map bcdplus_lookup chunk) of
        None \<Rightarrow> Inl KeyError
      | Some codes \<Rightarrow> pack MSB_first [4, 4] codes)"

fun ser_bcd_plus :: "str_val \<Rightarrow> error + byte list" where
  "ser_bcd_plus (SStr s) = cat_results (map ser_bcd_plus_chunk (grouper 2 s 32))"
| "ser_bcd_plus (SInt i) = Inl TypeError"

definition ser_type_length :: "StringFmt \<Rightarrow> byte list \<Rightarrow> error + byte list" where
  "ser_type_length format v = pack MSB_first [2, 6] [StringFmt_value format, int (length v)]"

definition StringField_serialize ::
  "(str \<Rightarrow> str) \<Rightarrow> str_val \<Rightarrow> StringFmt \<Rightarrow> error + byte list" where
  "StringField_serialize upper v format =
     (let ser_fn = (case format of
                      BIN \<Rightarrow> ser_plain
                    | BCD_PLUS \<Rightarrow> ser_bcd_plus
                    | ASCII_6BIT \<Rightarrow> ser_6bit upper
                    | ASCII_8BIT \<Rightarrow> ser_plain)
      in case ser_fn v of
           Inl e \<Rightarrow> Inl e
         | Inr result \<Rightarrow>
             (case ser_type_length format result of
                Inl e \<Rightarrow> Inl e
              | Inr hdr \<Rightarrow> Inr (hdr @ result)))"

definition deser_plain :: "byte list \<Rightarrow> error + str" where
  "deser_plain v = utf8_decode v"

text \<open>
  In \<^verbatim>\<open>deser_6bit\<close> the groups hold the bytes of the payload as integers and, in a last
  group that is not full, the pad value \<^verbatim>\<open>' '\<close>, a \<^verbatim>\<open>str\<close> (\<open>None\<close> here), which
  \<^verbatim>\<open>bytearray\<close> refuses with a \<^verbatim>\<open>TypeError\<close>.
\<close>

definition deser_6bit_chunk :: "byte option list \<Rightarrow> error + byte list" where
  "deser_6bit_chunk chunk =
     (case those (rev chunk) of
        None \<Rightarrow> Inl TypeError
      | Some bs \<Rightarrow>
          (case unpack MSB_first [6, 6, 6, 6] bs of
             Inl e \<Rightarrow> Inl e
           | Inr tmp \<Rightarrow> Inr (map (\<lambda>x. word_of_int (x + 0x20)) (rev tmp))))"

definition deser_6bit :: "byte list \<Rightarrow> error + str" where
  "deser_6bit v =
     (case cat_results (map deser_6bit_chunk (grouper 3 (map Some v) None)) of
        Inl e \<Rightarrow> Inl e
      | Inr result \<Rightarrow> utf8_decode result)"

definition deser_bcd_plus_byte :: "byte \<Rightarrow> error + str" where
  "deser_bcd_plus_byte v =
     (case unpack MSB_first [4, 4] [v] of
        Inl e \<Rightarrow> Inl e
      | Inr tmp \<Rightarrow>
          (case those (map bcdplus_lookup_rev tmp) of
             None \<Rightarrow> Inl KeyError
           | Some cs \<Rightarrow> Inr cs))"

definition deser_bcd_plus :: "byte list \<Rightarrow> error + str" where
  "deser_bcd_plus v = cat_results (map deser_bcd_plus_byte v)"

fun StringFmt_of :: "int \<Rightarrow> StringFmt" where
  "StringFmt_of i = (if i = 0 then BIN else if i = 1 then BCD_PLUS
                     else if i = 2 then ASCII_6BIT else ASCII_8BIT)"

text \<open>
  \<^verbatim>\<open>deserialize\<close> assigns \<^verbatim>\<open>self.format\<close> before it decodes the payload, so a failing
  decoder leaves the new format with the old value.
\<close>

definition StringField_deserialize ::
  "str_val \<Rightarrow> StringFmt \<Rightarrow> byte list \<Rightarrow> (error + byte list) \<times> (str_val \<times> StringFmt)" where
  "StringField_deserialize v format input =
     (case unpack MSB_first [2, 6] (take 1 input) of
        Inl e \<Rightarrow> (Inl e, (v, format))
      | Inr hdr \<Rightarrow>
          (case hdr of
             [fmt_int, payload_len] \<Rightarrow>
               (let format1 = StringFmt_of fmt_int;
                    remainder = drop 1 input;
                    payload = take (nat payload_len) remainder;
                    remainder1 = drop (nat payload_len) remainder;
                    deser_fn = (case format1 of
                                  BIN \<Rightarrow> deser_plain
                                | BCD_PLUS \<Rightarrow> deser_bcd_plus
                                | ASCII_6BIT \<Rightarrow> deser_6bit
                                | ASCII_8BIT \<Rightarrow> deser_plain)
                in case deser_fn payload of
                     Inl e \<Rightarrow> (Inl e, (v, format1))
                   | Inr s \<Rightarrow> (Inr remainder1, (SStr s, format1)))
           | _ \<Rightarrow> (Inl ValueError, (v, format))))"

section \<open>Fields of either class\<close>

fun field_size :: "field \<Rightarrow> error + int" where
  "field_size (FixedField format v) = FixedField_size format"
| "field_size (StringField v format) = StringField_size v format"

fun field_serialize :: "(str \<Rightarrow> str) \<Rightarrow> field \<Rightarrow> error + byte list" where
  "field_serialize upper (FixedField format v) = FixedField_serialize format v"
| "field_serialize upper (StringField v format) = StringField_serialize upper v format"

fun field_deserialize :: "field \<Rightarrow> byte list \<Rightarrow> (error + byte list) \<times> field" where
  "field_deserialize (FixedField format v) input =
     (case FixedField_deserialize format v input of (r, v1) \<Rightarrow> (r, FixedField format v1))"
| "field_deserialize (StringField v format) input =
     (case StringField_deserialize v format input of
        (r, (v1, format1)) \<Rightarrow> (r, StringField v1 format1))"

section \<open>FruArea\<close>

text \<open>
  The object state: the value of \<^verbatim>\<open>self._format_version\<close>, a \<^verbatim>\<open>FixedField('u4u4')\<close>
  whose format never changes, and \<^verbatim>\<open>self._dict\<close>, the ordered dictionary of the
  fields.  Every method that mutates the object and may raise returns its outcome
  together with the state the object is left in.
\<close>

record FruArea =
  format_version :: fixed_val
  dict :: "(string \<times> field) list"

definition format_version_default :: int where
  "format_version_default = 1"

text \<open>\<^verbatim>\<open>OrderedDict(self._schema)\<close>: a repeated key keeps its first place and its last value.\<close>

definition FruArea_init :: "(string \<times> field) list \<Rightarrow> FruArea" where
  "FruArea_init schema =
     \<lparr>format_version = FTuple [0, format_version_default],
      dict = fold (\<lambda>(k, v). AList.update k v) schema []\<rparr>"

fun field_value :: "field \<Rightarrow> pyval" where
  "field_value (FixedField format FNone) = VNone"
| "field_value (FixedField format (FInt i)) = VInt i"
| "field_value (FixedField format (FTuple t)) = VList t"
| "field_value (StringField (SStr s) format) = VStr s"
| "field_value (StringField (SInt i) format) = VInt i"

definition get_generic :: "FruArea \<Rightarrow> string \<Rightarrow> error + pyval" where
  \<comment> \<open>\<^verbatim>\<open>_get\<close>\<close>
  "get_generic a key =
     (case map_of (dict a) key of None \<Rightarrow> Inl KeyError | Some f \<Rightarrow> Inr (field_value f))"

fun set_field_value :: "field \<Rightarrow> int \<Rightarrow> field" where
  "set_field_value (FixedField format v) i = FixedField format (FInt i)"
| "set_field_value (StringField v format) i = StringField (SInt i) format"

definition set_generic :: "FruArea \<Rightarrow> string \<Rightarrow> int \<Rightarrow> error + FruArea" where
  \<comment> \<open>\<^verbatim>\<open>_set\<close>, for the integer values that the class itself stores\<close>
  "set_generic a key i =
     (case map_of (dict a) key of
        None \<Rightarrow> Inl KeyError
      | Some f \<Rightarrow> Inr (a\<lparr>dict := AList.update key (set_field_value f i) (dict a)\<rparr>))"

definition set_area_length :: "FruArea \<Rightarrow> int \<Rightarrow> error + FruArea" where
  "set_area_length a v =
     (if v mod 8 \<noteq> 0 then Inl ValueError else set_generic a ''area_length'' (v div 8))"

text \<open>\<^verbatim>\<open>self._get('area_length') * 8\<close>: a product for a number, a repetition for a sequence.\<close>

definition get_area_length :: "FruArea \<Rightarrow> error + pyval" where
  "get_area_length a =
     (case get_generic a ''area_length'' of
        Inl e \<Rightarrow> Inl e
      | Inr (VInt i) \<Rightarrow> Inr (VInt (i * 8))
      | Inr (VList l) \<Rightarrow> Inr (VList (concat (replicate 8 l)))
      | Inr (VStr s) \<Rightarrow> Inr (VStr (concat (replicate 8 s)))
      | Inr VNone \<Rightarrow> Inl TypeError)"

text \<open>\<^verbatim>\<open>self._format_version.value[1]\<close>\<close>

definition get_format_version :: "FruArea \<Rightarrow> error + pyval" where
  "get_format_version a =
     (case format_version a of
        FTuple (x # y # t) \<Rightarrow> Inr (VInt y)
      | FTuple _ \<Rightarrow> Inl IndexError
      | _ \<Rightarrow> Inl TypeError)"

definition getitem :: "FruArea \<Rightarrow> string \<Rightarrow> error + pyval" where
  \<comment> \<open>\<^verbatim>\<open>__getitem__\<close>: the special accessors \<^verbatim>\<open>_get_area_length\<close> and \<^verbatim>\<open>_get_format_version\<close> first\<close>
  "getitem a key =
     (if key = ''area_length'' then get_area_length a
      else if key = ''format_version'' then get_format_version a
      else get_generic a key)"

fun collect_items :: "(string \<times> (error + pyval)) list \<Rightarrow> error + (string \<times> pyval) list" where
  "collect_items [] = Inr []"
| "collect_items ((k, r) # rest) =
     (case r of
        Inl e \<Rightarrow> Inl e
      | Inr v \<Rightarrow> (case collect_items rest of Inl e \<Rightarrow> Inl e | Inr d \<Rightarrow> Inr ((k, v) # d)))"

definition to_dict :: "FruArea \<Rightarrow> error + (string \<times> pyval) list" where
  "to_dict a = collect_items (map (\<lambda>k. (k, getitem a k)) (map fst (dict a)))"

definition prologue :: "FruArea \<Rightarrow> error + byte list" where
  "prologue a = FixedField_serialize [4, 4] (format_version a)"

definition epilogue :: "byte list \<Rightarrow> byte list" where
  "epilogue payload =
     (let numPadBytes = fst (sizeAlign (int (length payload) + 1) 8);
          result = replicate (nat numPadBytes) (0 :: byte);
          cksum = (- (\<Sum>b\<leftarrow>payload. uint b)) AND 0xff
      in result @ [word_of_int cksum])"

fun sum_results :: "(error + int) list \<Rightarrow> error + int" where
  "sum_results [] = Inr 0"
| "sum_results (x # xs) =
     (case x of
        Inl e \<Rightarrow> Inl e
      | Inr a \<Rightarrow> (case sum_results xs of Inl e \<Rightarrow> Inl e | Inr b \<Rightarrow> Inr (a + b)))"

definition size_payload :: "FruArea \<Rightarrow> error + int" where
  "size_payload a =
     (case sum_results (map (\<lambda>(k, v). field_size v) (dict a)) of
        Inl e \<Rightarrow> Inl e
      | Inr n \<Rightarrow> Inr (n + 1))"

definition size_total :: "FruArea \<Rightarrow> error + int" where
  "size_total a =
     (case size_payload a of Inl e \<Rightarrow> Inl e | Inr n \<Rightarrow> Inr (snd (sizeAlign (n + 1) 8)))"

definition serialize :: "(str \<Rightarrow> str) \<Rightarrow> FruArea \<Rightarrow> (error + byte list) \<times> FruArea" where
  "serialize upper a =
     (case prologue a of
        Inl e \<Rightarrow> (Inl e, a)
      | Inr payload \<Rightarrow>
          (case (if ''area_length'' \<in> fst ` set (dict a)
                 then (case size_total a of Inl e \<Rightarrow> Inl e | Inr n \<Rightarrow> set_area_length a n)
                 else Inr a) of
             Inl e \<Rightarrow> (Inl e, a)
           | Inr a1 \<Rightarrow>
               (case cat_results (map (\<lambda>(k, v). field_serialize upper v) (dict a1)) of
                  Inl e \<Rightarrow> (Inl e, a1)
                | Inr body \<Rightarrow>
                    (let payload1 = payload @ body in
                     (Inr (payload1 @ epilogue payload1), a1)))))"

text \<open>
  The loop of \<^verbatim>\<open>deserialize\<close> over \<^verbatim>\<open>self._dict.values()\<close>: every field consumes a prefix
  of the remainder; a field that raises stops the loop, with the fields before it
  already overwritten.
\<close>

fun deserialize_fields ::
  "(string \<times> field) list \<Rightarrow> byte list \<Rightarrow> (error + byte list) \<times> (string \<times> field) list" where
  "deserialize_fields [] remainder = (Inr remainder, [])"
| "deserialize_fields ((k, v) # rest) remainder =
     (case field_deserialize v remainder of
        (Inl e, v1) \<Rightarrow> (Inl e, (k, v1) # rest)
      | (Inr remainder1, v1) \<Rightarrow>
          (case deserialize_fields rest remainder1 of
             (r, rest1) \<Rightarrow> (r, (k, v1) # rest1)))"

text \<open>\<^verbatim>\<open>input[:-len(remainder)]\<close>: with an empty remainder this is \<^verbatim>\<open>input[:0]\<close>.\<close>

definition consumed :: "byte list \<Rightarrow> byte list \<Rightarrow> byte list" where
  "consumed input remainder =
     (if length remainder = 0 then [] else take (length input - length remainder) input)"

definition deserialize :: "FruArea \<Rightarrow> byte list \<Rightarrow> (error + byte list) \<times> FruArea" where
  "deserialize a input =
     (case FixedField_deserialize [4, 4] (format_version a) input of
        (Inl e, fv) \<Rightarrow> (Inl e, a\<lparr>format_version := fv\<rparr>)
      | (Inr remainder, fv) \<Rightarrow>
          (case deserialize_fields (dict a) remainder of
             (Inl e, d) \<Rightarrow> (Inl e, a\<lparr>format_version := fv, dict := d\<rparr>)
           | (Inr remainder1, d) \<Rightarrow>
               (let a1 = a\<lparr>format_version := fv, dict := d\<rparr>;
                    payload = consumed input remainder1;
                    ep = epilogue payload;
                    vfy = take (length ep) remainder1;
                    remainder2 = drop (length ep) remainder1
                in if ep \<noteq> vfy then (Inl (ChecksumError ep vfy), a1)
                   else (Inr remainder2, a1))))"



text \<open>
  The rule of the specification for \<^verbatim>\<open>ASCII_6BIT\<close>, written from its words and not from
  the code: upper-case the input; pad it with trailing spaces to a multiple of 4
  characters; for each chunk of 4 characters subtract \<open>0x20\<close> from each character code,
  pack the 4 six-bit codes into a 24-bit stream with the first character most
  significant, split the stream into 3 bytes and reverse the order of these bytes.
\<close>

definition pad_spaces :: "nat \<Rightarrow> str \<Rightarrow> str" where
  "pad_spaces n s = s @ replicate ((n - length s mod n) mod n) 32"

function chunks :: "nat \<Rightarrow> 'a list \<Rightarrow> 'a list list" where
  "chunks n xs = (if n = 0 \<or> xs = [] then [] else take n xs # chunks n (drop n xs))"
  by pat_completeness auto
termination
  by (relation "measure (\<lambda>(n, xs). length xs)") auto

declare chunks.simps [simp del]

definition stream24 :: "nat list \<Rightarrow> nat" where
  \<comment> \<open>the codes as one number, the first code in the most significant place\<close>
  "stream24 codes = foldl (\<lambda>a k. a * 64 + k) 0 codes"

definition split3 :: "nat \<Rightarrow> byte list" where
  \<comment> \<open>the 24-bit stream as 3 bytes, the most significant first\<close>
  "split3 stream =
     [word_of_nat (stream div 65536), word_of_nat (stream div 256 mod 256),
      word_of_nat (stream mod 256)]"

definition spec_6bit_chunk :: "nat list \<Rightarrow> byte list" where
  "spec_6bit_chunk chunk = rev (split3 (stream24 (map (\<lambda>c. c - 0x20) chunk)))"

definition spec_6bit :: "(str \<Rightarrow> str) \<Rightarrow> str \<Rightarrow> byte list" where
  "spec_6bit upper s =
     concat (map spec_6bit_chunk (chunks 4 (pad_spaces 4 (str_upper upper s))))"

text \<open>
  The same rule with the one change the code asks for: the last character of a chunk,
  not the first, is the most significant in the 24-bit stream.
\<close>

definition amended_6bit_chunk :: "nat list \<Rightarrow> byte list" where
  "amended_6bit_chunk chunk = rev (split3 (stream24 (rev (map (\<lambda>c. c - 0x20) chunk))))"

definition amended_6bit :: "(str \<Rightarrow> str) \<Rightarrow> str \<Rightarrow> byte list" where
  "amended_6bit upper s =
     concat (map amended_6bit_chunk (chunks 4 (pad_spaces 4 (str_upper upper s))))"

definition sixbit_char :: "nat \<Rightarrow> bool" where
  \<comment> \<open>a character whose code minus \<open>0x20\<close> fits in 6 bits\<close>
  "sixbit_char c = (0x20 \<le> c \<and> c \<le> 0x5F)"

text \<open>Text literals: the code points of an ASCII string.\<close>

definition str_of :: "string \<Rightarrow> str" where
  "str_of s = map of_char s"

section \<open>The epilogue: alignment and checksum\<close>

lemma epilogue_length: "(length payload + length (epilogue payload)) mod 8 = 0"
proof -
  define n where "n = int (length payload)"
  have "(n + ((- (n + 1)) mod 8) + 1) mod 8 = 0"
    by presburger
  moreover have "int (length payload + length (epilogue payload))
      = n + ((- (n + 1)) mod 8) + 1"
    by (simp add: epilogue_def sizeAlign_def Let_def n_def)
  ultimately have "int (length payload + length (epilogue payload)) mod 8 = 0" by simp
  then have "int ((length payload + length (epilogue payload)) mod 8) = int 0"
    by (simp add: zmod_int)
  then show ?thesis by (simp only: of_nat_eq_iff)
qed

lemma and_255_mod: "(x :: int) AND 0xff = x mod 256"
proof -
  have "(0xff :: int) = mask 8" by (simp add: mask_eq_exp_minus_1)
  then have "x AND 0xff = take_bit 8 x" by (simp only: take_bit_eq_mask)
  then show ?thesis by (simp add: take_bit_eq_mod)
qed

lemma epilogue_sum: "(\<Sum>b\<leftarrow>payload @ epilogue payload. uint b) mod 256 = 0"
proof -
  define S where "S = (\<Sum>b\<leftarrow>payload. uint b)"
  have "uint (word_of_int ((- S) AND 0xff) :: byte) = (- S) mod 256"
    by (simp add: and_255_mod uint_word_of_int)
  then have "(\<Sum>b\<leftarrow>payload @ epilogue payload. uint b) = S + (- S) mod 256"
    by (simp add: epilogue_def Let_def S_def sum_list_replicate)
  moreover have "(S + (- S) mod 256) mod 256 = 0"
    by (metis add.right_inverse mod_add_right_eq mod_0)
  ultimately show ?thesis by (simp only:)
qed

lemma serialize_Inr:
  assumes "serialize upper a = (Inr bs, a')"
  shows "\<exists>pro body. prologue a = Inr pro
           \<and> cat_results (map (\<lambda>(k, v). field_serialize upper v) (dict a')) = Inr body
           \<and> bs = (pro @ body) @ epilogue (pro @ body)"
  using assms
  by (auto simp: serialize_def Let_def split: sum.splits if_splits)

text \<open>
  C2.  Whenever \<^verbatim>\<open>FruArea.serialize\<close> returns bytes, their number is a multiple of 8 and
  their sum is 0 modulo 256: the result is the payload followed by its epilogue, which
  pads with zero bytes and ends in the byte \<open>(- sum payload) mod 256\<close>.
\<close>

theorem serialize_aligned_checksum:
  assumes "serialize upper a = (Inr bs, a')"
  shows "length bs mod 8 = 0 \<and> (\<Sum>b\<leftarrow>bs. uint b) mod 256 = 0"
proof -
  from serialize_Inr [OF assms] obtain p where bs: "bs = p @ epilogue p" by blast
  show ?thesis unfolding bs using epilogue_length [of p] epilogue_sum [of p] by simp
qed

theorem serialize_aligned_checksum_witness:
  "serialize ascii_upper (FruArea_init [(''area_length'', FixedField [8] (FInt 0)),
                            (''name'', StringField (SStr (str_of ''Hi'')) ASCII_8BIT)])
     = (Inr [0x01, 0x01, 0xC2, 0x48, 0x69, 0x00, 0x00, 0x8B],
        FruArea_init [(''area_length'', FixedField [8] (FInt 1)),
                      (''name'', StringField (SStr (str_of ''Hi'')) ASCII_8BIT)])
   \<and> length [0x01, 0x01, 0xC2, 0x48, 0x69, 0x00, 0x00, 0x8B :: byte] mod 8 = 0
   \<and> (\<Sum>b\<leftarrow>[0x01, 0x01, 0xC2, 0x48, 0x69, 0x00, 0x00, 0x8B :: byte]. uint b) mod 256 = 0"
proof -
  have h: "serialize ascii_upper (FruArea_init [(''area_length'', FixedField [8] (FInt 0)),
                            (''name'', StringField (SStr (str_of ''Hi'')) ASCII_8BIT)])
     = (Inr [0x01, 0x01, 0xC2, 0x48, 0x69, 0x00, 0x00, 0x8B],
        FruArea_init [(''area_length'', FixedField [8] (FInt 1)),
                      (''name'', StringField (SStr (str_of ''Hi'')) ASCII_8BIT)])"
    by code_simp
  from serialize_aligned_checksum [OF h] h show ?thesis by (simp only: simp_thms)
qed

text \<open>
  C3.  An \<^verbatim>\<open>ASCII_6BIT\<close> string field holding \<^verbatim>\<open>"IPMI"\<close> serializes to the bytes
  \<^verbatim>\<open>83 29 DC A6\<close>, and deserializing these four bytes stores \<^verbatim>\<open>"IPMI"\<close> (and the format
  \<^verbatim>\<open>ASCII_6BIT\<close>) in the field, whatever it held before, leaving no remainder.
\<close>

theorem ipmi_6bit_vector:
  "StringField_serialize upper (SStr (str_of ''IPMI'')) ASCII_6BIT = Inr [0x83, 0x29, 0xDC, 0xA6]
   \<and> StringField_deserialize v f [0x83, 0x29, 0xDC, 0xA6]
       = (Inr [], (SStr (str_of ''IPMI''), ASCII_6BIT))"
  by code_simp

section \<open>The special field \<^verbatim>\<open>area_length\<close>\<close>

lemma cat_results_Inr_mem:
  "cat_results xs = Inr b \<Longrightarrow> x \<in> set xs \<Longrightarrow> \<exists>y. x = Inr y"
  by (induction xs arbitrary: b) (auto split: sum.splits)

lemma field_size_update:
  "map_of al k = Some (FixedField fmt v) \<Longrightarrow>
   map (\<lambda>(k, v). field_size v) (AList.update k (FixedField fmt w) al)
     = map (\<lambda>(k, v). field_size v) al"
  by (induction al) (auto split: if_splits)

lemma set_field_value_serialize:
  "field_serialize upper (set_field_value f i) = Inr bs \<Longrightarrow> \<exists>fmt v. f = FixedField fmt v"
  by (cases f) (auto simp: StringField_serialize_def split: StringFmt.splits)

text \<open>
  What a successful \<^verbatim>\<open>serialize\<close> does to an object that has the key: the field is a
  \<^verbatim>\<open>FixedField\<close> (an integer stored in a \<^verbatim>\<open>StringField\<close> makes its \<^verbatim>\<open>serialize\<close> raise)
  and holds \<^verbatim>\<open>size_total() // 8\<close> afterwards; nothing else changes.
\<close>

lemma serialize_area_length:
  assumes ser: "serialize upper a = (Inr bs, a')"
    and key: "''area_length'' \<in> fst ` set (dict a)"
  shows "\<exists>n fmt v. size_total a = Inr n \<and> n mod 8 = 0
           \<and> map_of (dict a) ''area_length'' = Some (FixedField fmt v)
           \<and> a' = a\<lparr>dict := AList.update ''area_length'' (FixedField fmt (FInt (n div 8))) (dict a)\<rparr>"
proof -
  from ser key obtain n a1 body where
    n: "size_total a = Inr n" and a1: "set_area_length a n = Inr a1"
    and body: "cat_results (map (\<lambda>(k, v). field_serialize upper v) (dict a1)) = Inr body"
    and a': "a' = a1"
    by (auto simp: serialize_def Let_def split: sum.splits if_splits)
  from a1 obtain f where n8: "n mod 8 = 0" and f: "map_of (dict a) ''area_length'' = Some f"
    and a1_eq: "a1 = a\<lparr>dict := AList.update ''area_length'' (set_field_value f (n div 8)) (dict a)\<rparr>"
    by (auto simp: set_area_length_def set_generic_def split: if_splits option.splits)
  have "map_of (dict a1) ''area_length'' = Some (set_field_value f (n div 8))"
    by (simp add: a1_eq update_conv')
  then have "(''area_length'', set_field_value f (n div 8)) \<in> set (dict a1)"
    by (rule map_of_SomeD)
  then have "field_serialize upper (set_field_value f (n div 8))
               \<in> set (map (\<lambda>(k, v). field_serialize upper v) (dict a1))"
    by force
  from cat_results_Inr_mem [OF body this] obtain y where
    "field_serialize upper (set_field_value f (n div 8)) = Inr y" by blast
  from set_field_value_serialize [OF this] obtain fmt v where ff: "f = FixedField fmt v" by blast
  show ?thesis using n n8 f a1_eq a' ff by auto
qed

text \<open>
  C6, as stated, fails: \<^verbatim>\<open>get('area_length')\<close> is already the stored unit value times 8,
  so it is that value itself, not its product with 8, that equals \<^verbatim>\<open>size_total()\<close>.
  For the schema with the single field \<^verbatim>\<open>area_length = FixedField('u8', 0)\<close>, after
  \<^verbatim>\<open>serialize()\<close> the getter returns 8 and \<^verbatim>\<open>size_total()\<close> is 8.
\<close>

theorem area_length_times_8_counterexample:
  "serialize ascii_upper (FruArea_init [(''area_length'', FixedField [8] (FInt 0))])
     = (Inr [0x01, 0x01, 0x00, 0x00, 0x00, 0x00, 0x00, 0xFE],
        FruArea_init [(''area_length'', FixedField [8] (FInt 1))])
   \<and> getitem (FruArea_init [(''area_length'', FixedField [8] (FInt 1))]) ''area_length''
       = Inr (VInt 8)
   \<and> size_total (FruArea_init [(''area_length'', FixedField [8] (FInt 1))]) = Inr 8
   \<and> (8 :: int) * 8 \<noteq> 8"
  by code_simp

text \<open>
  C6, amended.  For every object whose schema has the field \<^verbatim>\<open>area_length\<close>, after a
  successful \<^verbatim>\<open>serialize()\<close> the value returned by \<^verbatim>\<open>get('area_length')\<close> equals
  \<^verbatim>\<open>size_total()\<close>.
\<close>

theorem area_length_is_size_total:
  assumes ser: "serialize upper a = (Inr bs, a')"
    and key: "''area_length'' \<in> fst ` set (dict a)"
  shows "\<exists>n. size_total a' = Inr n \<and> getitem a' ''area_length'' = Inr (VInt n)"
proof -
  from serialize_area_length [OF ser key] obtain n fmt v where
    n: "size_total a = Inr n" and n8: "n mod 8 = 0"
    and f: "map_of (dict a) ''area_length'' = Some (FixedField fmt v)"
    and a': "a' = a\<lparr>dict := AList.update ''area_length'' (FixedField fmt (FInt (n div 8))) (dict a)\<rparr>"
    by (elim exE conjE)
  have "size_total a' = size_total a"
    by (simp add: size_total_def size_payload_def a' field_size_update [OF f])
  moreover have "getitem a' ''area_length'' = Inr (VInt (n div 8 * 8))"
    by (simp add: getitem_def get_area_length_def get_generic_def a' update_conv')
  moreover have "n div 8 * 8 = n" using n8 by presburger
  ultimately show ?thesis using n by simp
qed

theorem area_length_is_size_total_witness:
  "serialize ascii_upper (FruArea_init [(''x'', FixedField [16] (FInt 258)),
                            (''area_length'', FixedField [8] (FInt 0))])
     = (Inr [0x01, 0x02, 0x01, 0x01, 0x00, 0x00, 0x00, 0xFB],
        FruArea_init [(''x'', FixedField [16] (FInt 258)),
                      (''area_length'', FixedField [8] (FInt 1))])
   \<and> ''area_length'' \<in> fst ` set (dict (FruArea_init [(''x'', FixedField [16] (FInt 258)),
                            (''area_length'', FixedField [8] (FInt 0))]))
   \<and> (\<exists>n. size_total (FruArea_init [(''x'', FixedField [16] (FInt 258)),
                      (''area_length'', FixedField [8] (FInt 1))]) = Inr n
          \<and> getitem (FruArea_init [(''x'', FixedField [16] (FInt 258)),
                      (''area_length'', FixedField [8] (FInt 1))]) ''area_length'' = Inr (VInt n))"
proof -
  have h: "serialize ascii_upper (FruArea_init [(''x'', FixedField [16] (FInt 258)),
                            (''area_length'', FixedField [8] (FInt 0))])
     = (Inr [0x01, 0x02, 0x01, 0x01, 0x00, 0x00, 0x00, 0xFB],
        FruArea_init [(''x'', FixedField [16] (FInt 258)),
                      (''area_length'', FixedField [8] (FInt 1))])"
    by code_simp
  have k: "''area_length'' \<in> fst ` set (dict (FruArea_init [(''x'', FixedField [16] (FInt 258)),
                            (''area_length'', FixedField [8] (FInt 0))]))"
    by code_simp
  from area_length_is_size_total [OF h k] h k show ?thesis by (simp only: simp_thms)
qed

section \<open>Deserializing a record: the epilogue check\<close>

text \<open>Every \<^verbatim>\<open>deserialize\<close> returns a suffix of its input.\<close>

lemma FixedField_deserialize_suffix:
  "FixedField_deserialize format v input = (Inr r, v') \<Longrightarrow> \<exists>k. r = drop k input"
  by (auto simp: FixedField_deserialize_def Let_def split: sum.splits if_splits list.splits)

lemma StringField_deserialize_suffix:
  "StringField_deserialize v format input = (Inr r, vf) \<Longrightarrow> \<exists>k. r = drop k input"
  by (auto simp: StringField_deserialize_def Let_def split: sum.splits if_splits list.splits)

lemma field_deserialize_suffix:
  "field_deserialize f input = (Inr r, f') \<Longrightarrow> \<exists>k. r = drop k input"
  by (cases f) (auto split: prod.splits dest: FixedField_deserialize_suffix StringField_deserialize_suffix)

lemma deserialize_fields_suffix:
  "deserialize_fields d input = (Inr r, d') \<Longrightarrow> \<exists>k. r = drop k input"
proof (induction d arbitrary: input d')
  case Nil
  then show ?case by (auto intro: exI [of _ 0])
next
  case (Cons kv d)
  obtain k v where kv: "kv = (k, v)" by (cases kv)
  from Cons.prems obtain r1 v1 rest1 where
    f: "field_deserialize v input = (Inr r1, v1)" and
    r: "deserialize_fields d r1 = (Inr r, rest1)"
    by (auto simp: kv split: prod.splits sum.splits)
  from field_deserialize_suffix [OF f] obtain i where "r1 = drop i input" by blast
  moreover from Cons.IH [OF r] obtain j where "r = drop j r1" by blast
  ultimately have "r = drop (j + i) input" by simp
  then show ?case by blast
qed

lemma consumed_suffix:
  assumes "r = drop k input"
  shows "input = take (length input - length r) input @ r"
    and "r \<noteq> [] \<Longrightarrow> consumed input r = take (length input - length r) input"
proof -
  show "input = take (length input - length r) input @ r"
  proof (cases "k \<le> length input")
    case True
    then have "length input - length r = k" using assms by simp
    then show ?thesis using assms by simp
  next
    case False
    then show ?thesis using assms by simp
  qed
  show "r \<noteq> [] \<Longrightarrow> consumed input r = take (length input - length r) input"
    by (simp add: consumed_def)
qed

lemma epilogue_nonempty: "epilogue p \<noteq> []"
  by (simp add: epilogue_def Let_def)

lemma FixedField_size_44: "FixedField_size [4, 4] = Inr 1"
  by (simp add: FixedField_size_def calcsize_def)

lemma unpack_44_1: "unpack LSB_first [4, 4] [1] = Inr [0, 1]"
  by code_simp

lemma prologue_byte:
  "FixedField_deserialize [4, 4] v (1 # rest) = (Inr rest, FTuple [0, 1])"
  by (simp add: FixedField_deserialize_def FixedField_size_44 unpack_44_1)

lemma epilogue_1: "epilogue [1] = [0, 0, 0, 0, 0, 0, 0xFF]"
  by code_simp

text \<open>
  What \<^verbatim>\<open>deserialize\<close> does once the prologue and the fields have consumed their bytes:
  it compares an epilogue with the next bytes of the input, returns what follows when
  they are equal and raises the checksum/padding error otherwise.  While bytes remain
  after the fields, that epilogue is the one of the consumed payload; when none remains,
  \<^verbatim>\<open>input[:-len(remainder)]\<close> is \<^verbatim>\<open>input[:0]\<close> and the epilogue is the one of an
  empty payload.  The record without fields refuses \<^verbatim>\<open>01 00 00 00 00 00 00 x\<close> for every
  \<open>x\<close> other than \<^verbatim>\<open>FF\<close>.
\<close>

lemma deserialize_epilogue_check:
  "(FixedField_deserialize [4, 4] (format_version a) input = (Inr r0, fv)
      \<and> deserialize_fields (dict a) r0 = (Inr r1, d)
    \<longrightarrow> (\<exists>payload. input = payload @ r1 \<and>
          (if take (length (epilogue payload)) r1 = epilogue payload
           then deserialize a input
                = (Inr (drop (length (epilogue payload)) r1),
                   a\<lparr>format_version := fv, dict := d\<rparr>)
           else \<exists>e. deserialize a input
                = (Inl (ChecksumError e (take (length e) r1)),
                   a\<lparr>format_version := fv, dict := d\<rparr>)
                \<and> (r1 \<noteq> [] \<longrightarrow> e = epilogue payload))))
   \<and> (x \<noteq> 0xFF \<longrightarrow>
        fst (deserialize (FruArea_init []) [0x01, 0x00, 0x00, 0x00, 0x00, 0x00, 0x00, x])
          = Inl (ChecksumError [0, 0, 0, 0, 0, 0, 0xFF] [0, 0, 0, 0, 0, 0, x]))"
proof (intro conjI impI)
  assume "FixedField_deserialize [4, 4] (format_version a) input = (Inr r0, fv)
      \<and> deserialize_fields (dict a) r0 = (Inr r1, d)"
  then have pro: "FixedField_deserialize [4, 4] (format_version a) input = (Inr r0, fv)"
    and flds: "deserialize_fields (dict a) r0 = (Inr r1, d)" by simp_all
  from FixedField_deserialize_suffix [OF pro] obtain i where i: "r0 = drop i input" by blast
  from deserialize_fields_suffix [OF flds] obtain j where "r1 = drop j r0" by blast
  with i have r1: "r1 = drop (j + i) input" by simp
  define payload where "payload = take (length input - length r1) input"
  have inp: "input = payload @ r1"
    unfolding payload_def by (rule consumed_suffix(1) [OF r1])
  have des: "deserialize a input =
      (let ep = epilogue (consumed input r1) in
       if ep \<noteq> take (length ep) r1
       then (Inl (ChecksumError ep (take (length ep) r1)), a\<lparr>format_version := fv, dict := d\<rparr>)
       else (Inr (drop (length ep) r1), a\<lparr>format_version := fv, dict := d\<rparr>))"
    by (simp add: deserialize_def pro flds Let_def)
  show "\<exists>payload. input = payload @ r1 \<and>
          (if take (length (epilogue payload)) r1 = epilogue payload
           then deserialize a input
                = (Inr (drop (length (epilogue payload)) r1),
                   a\<lparr>format_version := fv, dict := d\<rparr>)
           else \<exists>e. deserialize a input
                = (Inl (ChecksumError e (take (length e) r1)),
                   a\<lparr>format_version := fv, dict := d\<rparr>)
                \<and> (r1 \<noteq> [] \<longrightarrow> e = epilogue payload))"
  proof (cases "r1 = []")
    case True
    then show ?thesis using inp des epilogue_nonempty [of payload]
        epilogue_nonempty [of "consumed input r1"]
      by (intro exI [of _ payload]) (auto simp: Let_def dest: sym)
  next
    case False
    then have "consumed input r1 = payload"
      unfolding payload_def by (rule consumed_suffix(2) [OF r1])
    then show ?thesis using inp des
      by (intro exI [of _ payload]) (auto simp: Let_def)
  qed
next
  assume "x \<noteq> 0xFF"
  then show "fst (deserialize (FruArea_init []) [0x01, 0x00, 0x00, 0x00, 0x00, 0x00, 0x00, x])
          = Inl (ChecksumError [0, 0, 0, 0, 0, 0, 0xFF] [0, 0, 0, 0, 0, 0, x])"
    by (simp add: deserialize_def FruArea_init_def prologue_byte consumed_def epilogue_1 Let_def)
qed

text \<open>
  C7.  \<^verbatim>\<open>FruArea.deserialize\<close> never accepts a buffer whose epilogue does not match, but
  the expected bytes it names are not always those recomputed over the consumed payload:
  for the record without fields and the one-byte buffer \<^verbatim>\<open>01\<close>, the prologue consumes
  the byte, nothing remains, and the error names eight zero bytes, the epilogue of an
  empty payload, where the epilogue of the consumed payload \<^verbatim>\<open>01\<close> is
  \<^verbatim>\<open>00 00 00 00 00 00 FF\<close>.
\<close>

theorem deserialize_names_epilogue_of_empty_payload:
  "deserialize (FruArea_init []) [0x01]
     = (Inl (ChecksumError [0x00, 0x00, 0x00, 0x00, 0x00, 0x00, 0x00, 0x00] []),
        \<lparr>format_version = FTuple [0, 1], dict = []\<rparr>)
   \<and> consumed [0x01] [] = []
   \<and> epilogue [0x01] = [0x00, 0x00, 0x00, 0x00, 0x00, 0x00, 0xFF]"
  by code_simp

section \<open>Deserializing a record is not atomic\<close>

















section \<open>Binary digits, bytes and the two byte orders of bitstruct\<close>

lemma length_bits_of [simp]: "length (bits_of n v) = n"
  by (induction n arbitrary: v) auto

lemma nat_of_bits_snoc: "nat_of_bits (bs @ [b]) = 2 * nat_of_bits bs + (if b then 1 else 0)"
  by (simp add: nat_of_bits_def)

lemma nat_of_bits_Nil [simp]: "nat_of_bits [] = 0"
  by (simp add: nat_of_bits_def)

lemma nat_of_bits_append:
  "nat_of_bits (xs @ ys) = nat_of_bits xs * 2 ^ length ys + nat_of_bits ys"
proof (induction ys rule: rev_induct)
  case Nil
  then show ?case by simp
next
  case (snoc y ys)
  have "nat_of_bits (xs @ ys @ [y]) = 2 * nat_of_bits (xs @ ys) + (if y then 1 else 0)"
    using nat_of_bits_snoc [of "xs @ ys" y] by simp
  then show ?case by (simp add: snoc.IH nat_of_bits_snoc algebra_simps)
qed

lemma nat_of_bits_lt: "nat_of_bits bs < 2 ^ length bs"
proof (induction bs rule: rev_induct)
  case Nil
  then show ?case by simp
next
  case (snoc b bs)
  then show ?case by (simp add: nat_of_bits_snoc)
qed

lemma nat_of_bits_bits_of: "nat_of_bits (bits_of n v) = v mod 2 ^ n"
proof (induction n arbitrary: v)
  case 0
  then show ?case by simp
next
  case (Suc n)
  have "v mod 2 ^ Suc n = 2 * (v div 2 mod 2 ^ n) + v mod 2"
    by (simp add: mod_mult2_eq)
  moreover have "nat_of_bits (bits_of (Suc n) v) = 2 * (v div 2 mod 2 ^ n) + (if odd v then 1 else 0)"
    by (simp add: nat_of_bits_snoc Suc.IH)
  moreover have "(if odd v then 1 else 0) = v mod 2"
    by (simp add: odd_iff_mod_2_eq_one)
  ultimately show ?case by (simp only:)
qed

lemma bits_of_nat_of_bits: "bits_of (length bs) (nat_of_bits bs) = bs"
proof (induction bs rule: rev_induct)
  case Nil
  then show ?case by simp
next
  case (snoc b bs)
  then show ?case by (simp add: nat_of_bits_snoc)
qed

lemma bytes_of_bits_Nil [simp]: "bytes_of_bits [] = []"
  by (simp add: bytes_of_bits.simps)

lemma bytes_of_bits_append8:
  "length a = 8 \<Longrightarrow> bytes_of_bits (a @ b) = byte_of_bits a # bytes_of_bits b"
  by (subst bytes_of_bits.simps) auto

lemma unat_byte_of_bits: "length c \<le> 8 \<Longrightarrow> unat (byte_of_bits c) = nat_of_bits c"
proof -
  assume "length c \<le> 8"
  then have "(2::nat) ^ length c \<le> 2 ^ 8" by (rule power_increasing) simp
  with nat_of_bits_lt [of c] have "nat_of_bits c < 256" by simp
  then show ?thesis by (simp add: byte_of_bits_def unat_of_nat)
qed

lemma bits_of_byte_of_bits: "length c = 8 \<Longrightarrow> bits_of 8 (unat (byte_of_bits c)) = c"
  using bits_of_nat_of_bits [of c] by (simp add: unat_byte_of_bits)

lemma bits_of_bytes_Cons: "bits_of_bytes (b # bs) = bits_of 8 (unat b) @ bits_of_bytes bs"
  by (simp add: bits_of_bytes_def)

lemma bits_of_bytes_Nil [simp]: "bits_of_bytes [] = []"
  by (simp add: bits_of_bytes_def)

lemma length_bits_of_bytes [simp]: "length (bits_of_bytes data) = 8 * length data"
  by (induction data) (auto simp: bits_of_bytes_Cons)

lemma bits_of_bytes_append: "bits_of_bytes (a @ b) = bits_of_bytes a @ bits_of_bytes b"
  by (simp add: bits_of_bytes_def)

lemma bits_of_bytes_of_bits:
  "length bs mod 8 = 0 \<Longrightarrow> bits_of_bytes (bytes_of_bits bs) = bs"
proof (induction bs rule: bytes_of_bits.induct)
  case (1 bs)
  show ?case
  proof (cases "bs = []")
    case True
    then show ?thesis by simp
  next
    case False
    with "1.prems" have len: "8 \<le> length bs" by (cases "length bs < 8") auto
    then have l8: "length (take 8 bs) = 8" by simp
    have "(length bs - 8) mod 8 = length bs mod 8" using len by (simp add: le_mod_geq)
    then have "length (drop 8 bs) mod 8 = 0" using "1.prems" by simp
    with "1.IH" False have IH: "bits_of_bytes (bytes_of_bits (drop 8 bs)) = drop 8 bs" by simp
    have "bytes_of_bits bs = byte_of_bits (take 8 bs) # bytes_of_bits (drop 8 bs)"
      using bytes_of_bits_append8 [OF l8, of "drop 8 bs"] by simp
    then show ?thesis by (simp add: bits_of_bytes_Cons IH bits_of_byte_of_bits [OF l8])
  qed
qed

lemma byte_of_bits_bits_of: "byte_of_bits (bits_of 8 (unat b)) = (b :: byte)"
proof -
  have "unat b < 2 ^ 8" using unsigned_less [of b] by simp
  then show ?thesis by (simp add: byte_of_bits_def nat_of_bits_bits_of)
qed

lemma bytes_of_bits_of_bytes: "bytes_of_bits (bits_of_bytes data) = data"
  by (induction data) (auto simp: bits_of_bytes_Cons bytes_of_bits_append8 byte_of_bits_bits_of)

lemma length_bytes_of_bits: "length (bytes_of_bits bs) = (length bs + 7) div 8"
proof (induction bs rule: bytes_of_bits.induct)
  case (1 bs)
  show ?case
  proof (cases "bs = []")
    case True
    then show ?thesis by simp
  next
    case False
    then have "bytes_of_bits bs = byte_of_bits (take 8 bs) # bytes_of_bits (drop 8 bs)"
      by (subst bytes_of_bits.simps) simp
    moreover have "Suc ((length bs - 8 + 7) div 8) = (length bs + 7) div 8"
    proof (cases "length bs < 8")
      case True
      moreover have "Suc 0 \<le> length bs" using False by (cases bs) simp_all
      ultimately have "(length bs + 7) div 8 = 1" by (intro div_nat_eqI) simp_all
      then show ?thesis using True by simp
    next
      case False
      then have "length bs + 7 = (length bs - 8 + 7) + 8" by simp
      then have "(length bs + 7) div 8 = (length bs - 8 + 7 + 8) div 8" by (simp only:)
      then show ?thesis by (simp only: div_add_self2)
    qed
    ultimately show ?thesis using "1.IH" [OF False] by simp
  qed
qed

lemma lsb_unpack_order_nonpos: "a \<le> 0 \<Longrightarrow> lsb_unpack_order a t = t"
  by (subst lsb_unpack_order.simps) simp

lemma lsb_unpack_order_pos:
  "a > 0 \<Longrightarrow> lsb_unpack_order a t
     = take 8 (drop (nat a) t) @ lsb_unpack_order (a - 8) (take (nat a) t)"
  by (subst lsb_unpack_order.simps) simp

lemma lsb_pack_order_nonpos: "a \<le> 0 \<Longrightarrow> lsb_pack_order a t = t"
  by (subst lsb_pack_order.simps) simp

lemma lsb_pack_order_pos:
  "a > 0 \<Longrightarrow> lsb_pack_order a t
     = drop (nat a) t @ lsb_pack_order (a - 8) (take (nat a) t)"
  by (subst lsb_pack_order.simps) simp

lemma length_lsb_pack_order [simp]: "length (lsb_pack_order a vb) = length vb"
proof (induction a vb rule: lsb_pack_order.induct)
  case (1 a vb)
  show ?case
  proof (cases "a > 0")
    case True
    have "length (drop (nat a) vb) + length (take (nat a) vb) = length vb" by simp
    with "1.IH" [OF True] True show ?thesis by (simp only: lsb_pack_order_pos length_append)
  next
    case False
    then show ?thesis by (simp add: lsb_pack_order_nonpos)
  qed
qed

lemma lsb_unpack_prepend:
  assumes "l \<noteq> []" "length l \<le> 8" "0 \<le> c" "c \<le> 8" "c \<le> int (length q)"
    "(int (length q) - c) mod 8 = 0"
  shows "lsb_unpack_order (int (length l) + (int (length q) - c)) (l @ q)
         = lsb_unpack_order (int (length q) - c) q @ l"
  using assms
proof (induction "nat (int (length q) - c)" arbitrary: q c rule: less_induct)
  case less
  define a where "a = int (length q) - c"
  have a0: "0 \<le> a" using less.prems by (simp add: a_def)
  have lpos: "0 < int (length l)" using less.prems(1) by simp
  show ?case
  proof (cases "a = 0")
    case True
    then have lq: "length q \<le> 8" using less.prems by (simp add: a_def)
    have "lsb_unpack_order (int (length l) + a) (l @ q)
          = take 8 q @ lsb_unpack_order (int (length l) - 8) l"
      using lpos True by (simp add: lsb_unpack_order_pos)
    also have "\<dots> = q @ l" using lq less.prems(2) by (simp add: lsb_unpack_order_nonpos)
    finally show ?thesis using True by (simp add: a_def [symmetric] lsb_unpack_order_nonpos)
  next
    case False
    with a0 have apos: "0 < a" by simp
    have "a mod 8 = 0" using less.prems(6) by (simp add: a_def)
    then have "8 dvd a" by (simp add: mod_eq_0_iff_dvd)
    then have a8: "8 \<le> a" using apos by (rule zdvd_imp_le)
    have ale: "nat a \<le> length q" using less.prems(3) by (simp add: a_def)
    define q' where "q' = take (nat a) q"
    have lq': "int (length q') = a" using ale apos by (simp add: q'_def)
    have step1: "lsb_unpack_order a q = take 8 (drop (nat a) q) @ lsb_unpack_order (a - 8) q'"
      using apos by (simp add: lsb_unpack_order_pos q'_def)
    have "nat (int (length l) + a) = length l + nat a" using a0 by simp
    then have step2: "lsb_unpack_order (int (length l) + a) (l @ q)
        = take 8 (drop (nat a) q) @ lsb_unpack_order (int (length l) + (a - 8)) (l @ q')"
      using apos lpos ale
      by (simp add: lsb_unpack_order_pos q'_def algebra_simps)
    have "nat (int (length q') - 8) < nat (int (length q) - c)"
      using lq' a8 by (simp add: a_def)
    moreover have "(int (length q') - 8) mod 8 = 0"
      using \<open>a mod 8 = 0\<close> by (simp add: lq' minus_mod_self2)
    ultimately have IH: "lsb_unpack_order (int (length l) + (int (length q') - 8)) (l @ q')
         = lsb_unpack_order (int (length q') - 8) q' @ l"
      using less.hyps [of q' 8] less.prems(1,2) lq' a8 by simp
    show ?thesis unfolding a_def [symmetric] using step1 step2 IH lq' by simp
  qed
qed

lemma lsb_order_inverse:
  assumes "1 \<le> r" "r \<le> 8"
  shows "lsb_unpack_order (int (length vb) - (int (length vb) - r) mod 8)
           (lsb_pack_order (int (length vb) - r) vb) = vb"
  using assms
proof (induction "length vb" arbitrary: vb r rule: less_induct)
  case less
  define n where "n = int (length vb)"
  show ?case
  proof (cases "n \<le> r")
    case True
    then have P: "lsb_pack_order (n - r) vb = vb" by (simp add: lsb_pack_order_nonpos)
    show ?thesis
    proof (cases "n = r")
      case True
      then have "n - (n - r) mod 8 = n" by simp
      moreover have "lsb_unpack_order n vb = vb"
        using True less.prems by (simp add: lsb_unpack_order_pos lsb_unpack_order_nonpos n_def)
      ultimately show ?thesis using P unfolding n_def [symmetric] by simp
    next
      case False
      with \<open>n \<le> r\<close> have "n < r" by simp
      moreover have "0 \<le> n" by (simp add: n_def)
      ultimately have "0 \<le> n - r + 8" "n - r + 8 < 8" using less.prems by simp_all
      then have "(n - r + 8) mod 8 = n - r + 8" by (rule mod_pos_pos_trivial)
      then have "(n - r) mod 8 = n - r + 8" by (simp only: mod_add_self2)
      then have "n - (n - r) mod 8 \<le> 0" using less.prems by simp
      then show ?thesis using P unfolding n_def [symmetric] by (simp add: lsb_unpack_order_nonpos)
    qed
  next
    case False
    then have pos: "0 < n - r" by simp
    define l where "l = drop (nat (n - r)) vb"
    define vb' where "vb' = take (nat (n - r)) vb"
    define q where "q = lsb_pack_order (n - r - 8) vb'"
    have lvb': "int (length vb') = n - r" using pos less.prems by (simp add: vb'_def n_def)
    have ll: "int (length l) = r" using pos less.prems by (simp add: l_def n_def)
    have lq: "int (length q) = n - r" by (simp add: q_def lvb')
    have P: "lsb_pack_order (n - r) vb = l @ q"
      using pos by (simp add: lsb_pack_order_pos l_def q_def vb'_def)
    have "length vb' < length vb" using lvb' less.prems(1) by (simp add: n_def)
    from less.hyps [OF this, of 8]
    have IH: "lsb_unpack_order (int (length vb') - (int (length vb') - 8) mod 8) q = vb'"
      by (simp add: q_def lvb')
    define e where "e = (n - r) mod 8"
    have e8: "(int (length vb') - 8) mod 8 = e" unfolding lvb' e_def by (rule minus_mod_self2)
    have IH': "lsb_unpack_order (int (length q) - e) q = vb'"
      using IH unfolding e8 unfolding lq lvb' .
    have "lsb_unpack_order (int (length l) + (int (length q) - e)) (l @ q)
         = lsb_unpack_order (int (length q) - e) q @ l"
    proof (rule lsb_unpack_prepend)
      show "l \<noteq> []" using ll less.prems by auto
      show "length l \<le> 8" using ll less.prems by simp
      show "0 \<le> e" "e \<le> 8" by (simp_all add: e_def) 
      show "e \<le> int (length q)" unfolding lq e_def using pos by (simp add: zmod_le_nonneg_dividend)
      show "(int (length q) - e) mod 8 = 0" unfolding lq e_def
        by (simp add: minus_mod_eq_mult_div)
    qed
    moreover have "int (length l) + (int (length q) - e) = n - e" by (simp add: ll lq)
    moreover have "vb' @ l = vb" by (simp add: vb'_def l_def)
    ultimately have "lsb_unpack_order (n - e) (l @ q) = vb" using IH' by simp
    then show ?thesis unfolding n_def [symmetric] e_def P .
  qed
qed

lemma length_pack_value [simp]:
  "length (pack_value bo bits vb) = length bits + length vb"
  by (cases bo) (simp_all add: pack_value_def)

lemma pack_value_prefix: "take (length bits) (pack_value bo bits vb) = bits"
  by (cases bo) (simp_all add: pack_value_def)

lemma pack_u_Inr:
  "pack_u sz v = Inr vb \<longleftrightarrow> 0 \<le> v \<and> v < 2 ^ sz \<and> vb = bits_of sz (nat v)"
  by (auto simp: pack_u_def)

lemma pack_u_Inl: "pack_u sz v = Inl e \<longleftrightarrow> (v < 0 \<or> 2 ^ sz \<le> v) \<and> e = BitstructError"
  by (auto simp: pack_u_def)

lemma pack_any_length_prefix:
  "pack_any bo infos args bits = Inr out \<Longrightarrow>
   length out = length bits + sum_list infos \<and> take (length bits) out = bits"
proof (induction bo infos args bits rule: pack_any.induct)
  case (1 bo args bits)
  then show ?case by simp
next
  case (2 bo sz infos bits)
  then show ?case by simp
next
  case (3 bo sz infos a args bits)
  from "3.prems" obtain vb where vb: "pack_u sz a = Inr vb"
    and rest: "pack_any bo infos args (pack_value bo bits vb) = Inr out"
    by (auto split: sum.splits)
  have lvb: "length vb = sz" using vb by (auto simp: pack_u_Inr)
  from "3.IH" [OF vb rest] have
    len: "length out = length (pack_value bo bits vb) + sum_list infos"
    and pre: "take (length (pack_value bo bits vb)) out = pack_value bo bits vb"
    by simp_all
  have "take (length bits) out = take (length bits) (take (length (pack_value bo bits vb)) out)"
    by (simp add: min_def)
  also have "\<dots> = bits" unfolding pre by (rule pack_value_prefix)
  finally show ?case using len lvb by simp
qed

lemma unpack_value_inverse:
  assumes off: "offset = length bits"
  shows "(case bo of
            MSB_first \<Rightarrow> take (length vb) (drop offset (pack_value bo bits vb @ rest))
          | LSB_first \<Rightarrow>
              lsb_unpack_order (int (length vb) - int ((offset + length vb) mod 8))
                (take (length vb) (drop offset (pack_value bo bits vb @ rest)))) = vb"
proof (cases bo)
  case MSB_first
  then show ?thesis by (simp add: pack_value_def off)
next
  case LSB_first
  define r where "r = 8 - int (length bits mod 8)"
  have r: "1 \<le> r" "r \<le> 8" unfolding r_def by simp_all
  have e: "int ((offset + length vb) mod 8) = (int (length vb) - r) mod 8"
  proof -
    define n where "n = int (length vb)"
    define b where "b = int (length bits)"
    have "n - (8 - b mod 8) = (n + b mod 8) - 8" by simp
    then have "(n - (8 - b mod 8)) mod 8 = (n + b mod 8) mod 8"
      by (simp only: minus_mod_self2)
    also have "\<dots> = (n + b) mod 8" by (rule mod_add_right_eq)
    finally have "(n - (8 - b mod 8)) mod 8 = (b + n) mod 8" by (simp add: add.commute)
    then show ?thesis unfolding r_def off n_def b_def by (simp add: zmod_int)
  qed
  have "take (length vb) (drop offset (pack_value bo bits vb @ rest))
        = lsb_pack_order (int (length vb) - r) vb"
    by (simp add: LSB_first pack_value_def off r_def)
  then show ?thesis using lsb_order_inverse [OF r, of vb] by (simp add: LSB_first e)
qed

lemma unpack_from_any_pack_any:
  "pack_any bo infos args bits = Inr out \<Longrightarrow>
   unpack_from_any bo (out @ rest) (length bits) infos = take (length infos) args"
proof (induction bo infos args bits arbitrary: rest rule: pack_any.induct)
  case (1 bo args bits)
  then show ?case by simp
next
  case (2 bo sz infos bits)
  then show ?case by simp
next
  case (3 bo sz infos a args bits)
  from "3.prems" obtain vb where vb: "pack_u sz a = Inr vb"
    and inner: "pack_any bo infos args (pack_value bo bits vb) = Inr out"
    by (auto split: sum.splits)
  have lvb: "length vb = sz" and a0: "0 \<le> a" and a2: "a < 2 ^ sz"
    and vbeq: "vb = bits_of sz (nat a)" using vb by (auto simp: pack_u_Inr)
  from pack_any_length_prefix [OF inner]
  have pre: "take (length bits + sz) out = pack_value bo bits vb" by (simp add: lvb)
  define suf where "suf = drop (length bits + sz) out"
  have out: "out = pack_value bo bits vb @ suf"
    unfolding suf_def pre [symmetric] by simp
  have val: "(case bo of
            MSB_first \<Rightarrow> take sz (drop (length bits) (out @ rest))
          | LSB_first \<Rightarrow>
              lsb_unpack_order (int sz - int ((length bits + sz) mod 8))
                (take sz (drop (length bits) (out @ rest)))) = vb"
  proof -
    have eq: "out @ rest = pack_value bo bits vb @ (suf @ rest)" by (subst out) simp
    show ?thesis unfolding eq lvb [symmetric] by (rule unpack_value_inverse) simp
  qed
  have "nat a < 2 ^ sz" using a0 a2 by (simp add: nat_less_iff) 
  then have v: "int (nat_of_bits vb) = a" using a0 by (simp add: vbeq nat_of_bits_bits_of)
  have r: "unpack_from_any bo (out @ rest) (length bits + sz) infos = take (length infos) args"
    using "3.IH" [OF vb inner, of rest] by (simp add: lvb)
  show ?case unfolding unpack_from_any.simps Let_def val v r by simp
qed

lemma pad_tail_arith:
  fixes n :: nat
  assumes "n mod 8 \<noteq> 0"
  shows "n + (8 - n mod 8) = (n div 8 + 1) * 8" and "(n + 7) div 8 = n div 8 + 1"
proof -
  define d m where "d = n div 8" and "m = n mod 8"
  have m: "m < 8" "m \<noteq> 0" using assms by (simp_all add: m_def)
  have n: "n = d * 8 + m" by (simp add: d_def m_def)
  show "n + (8 - n mod 8) = (n div 8 + 1) * 8"
    unfolding d_def [symmetric] m_def [symmetric] using m n by simp
  have "(d + 1) * 8 \<le> n + 7" "n + 7 < Suc (d + 1) * 8"
    using m n by simp_all
  then show "(n + 7) div 8 = n div 8 + 1"
    unfolding d_def [symmetric] by (intro div_nat_eqI) (simp_all add: mult.commute)
qed

lemma length_pad_tail_eq: "length (pad_tail bits) = (length bits + 7) div 8 * 8"
proof (cases "length bits mod 8 = 0")
  case True
  then have "8 dvd length bits" by (simp add: mod_eq_0_iff_dvd)
  then obtain k where k: "length bits = 8 * k" by (auto simp: dvd_def)
  have "(8 * k + 7) div 8 = k" by (intro div_nat_eqI) simp_all
  then show ?thesis using True by (simp add: pad_tail_def Let_def k)
next
  case False
  from pad_tail_arith [OF this] show ?thesis using False
    by (simp add: pad_tail_def Let_def)
qed

lemma length_pad_tail: "length (pad_tail bits) mod 8 = 0"
  by (simp add: length_pad_tail_eq)

lemma pad_tail_prefix: "\<exists>z. pad_tail bits = bits @ z"
  by (simp add: pad_tail_def Let_def)

lemma pack_unpack:
  assumes "pack bo infos args = Inr data"
  shows "unpack bo infos data = Inr (take (length infos) args)"
    and "length data = (sum_list infos + 7) div 8"
proof -
  from assms obtain bits where nz: "0 \<notin> set infos"
    and bits: "pack_any bo infos args [] = Inr bits"
    and data: "data = bytes_of_bits (pad_tail bits)"
    by (auto simp: pack_def split: if_splits sum.splits)
  from pack_any_length_prefix [OF bits] have len: "length bits = sum_list infos" by simp
  obtain z where z: "pad_tail bits = bits @ z" using pad_tail_prefix by blast
  have bb: "bits_of_bytes data = bits @ z"
    unfolding data using bits_of_bytes_of_bits [OF length_pad_tail [of bits]] z by simp
  have "unpack_from_any bo (bits @ z) 0 infos = take (length infos) args"
    using unpack_from_any_pack_any [OF bits, of z] by simp
  then show "unpack bo infos data = Inr (take (length infos) args)"
    using nz len by (simp add: unpack_def bb Let_def)
  show "length data = (sum_list infos + 7) div 8"
    unfolding data by (simp add: length_bytes_of_bits length_pad_tail_eq len)
qed

section \<open>Groups, sequences of results, and the errors of StringField.serialize\<close>

lemma grouper_Nil [simp]: "grouper n [] p = []"
  by (simp add: grouper.simps)

lemma grouper_step:
  "0 < n \<Longrightarrow> xs \<noteq> [] \<Longrightarrow>
   grouper n xs p = (take n xs @ replicate (n - length xs) p) # grouper n (drop n xs) p"
  by (subst grouper.simps) simp

lemma grouper_chunk_length: "c \<in> set (grouper n xs p) \<Longrightarrow> length c = n"
proof (induction n xs p rule: grouper.induct)
  case (1 n xs p)
  show ?case
  proof (cases "n = 0 \<or> xs = []")
    case True
    with "1.prems" show ?thesis by (simp add: grouper.simps)
  next
    case False
    then have "grouper n xs p = (take n xs @ replicate (n - length xs) p) # grouper n (drop n xs) p"
      by (simp add: grouper_step)
    with "1.prems" "1.IH" [OF False] show ?thesis by auto
  qed
qed

lemma grouper_set: "0 < n \<Longrightarrow> x \<in> set xs \<Longrightarrow> \<exists>c \<in> set (grouper n xs p). x \<in> set c"
proof (induction n xs p rule: grouper.induct)
  case (1 n xs p)
  from "1.prems" have ne: "\<not> (n = 0 \<or> xs = [])" by auto
  then have g: "grouper n xs p = (take n xs @ replicate (n - length xs) p) # grouper n (drop n xs) p"
    by (simp add: grouper_step)
  from "1.prems"(2) have "x \<in> set (take n xs) \<or> x \<in> set (drop n xs)"
    by (metis Un_iff append_take_drop_id set_append)
  then show ?case
  proof
    assume "x \<in> set (take n xs)"
    then show ?thesis by (simp add: g)
  next
    assume "x \<in> set (drop n xs)"
    from "1.IH" [OF ne "1.prems"(1) this] show ?thesis by (auto simp: g)
  qed
qed

lemma grouper_chunk_set:
  "c \<in> set (grouper n xs p) \<Longrightarrow> set c \<subseteq> insert p (set xs)"
proof (induction n xs p rule: grouper.induct)
  case (1 n xs p)
  show ?case
  proof (cases "n = 0 \<or> xs = []")
    case True
    with "1.prems" show ?thesis by (simp add: grouper.simps)
  next
    case False
    then have g: "grouper n xs p = (take n xs @ replicate (n - length xs) p) # grouper n (drop n xs) p"
      by (simp add: grouper_step)
    from "1.prems" [unfolded g] have "c = take n xs @ replicate (n - length xs) p
        \<or> c \<in> set (grouper n (drop n xs) p)" by simp
    then show ?thesis
    proof
      assume "c = take n xs @ replicate (n - length xs) p"
      then show ?thesis using set_take_subset [of n xs] by auto
    next
      assume "c \<in> set (grouper n (drop n xs) p)"
      from "1.IH" [OF False this] show ?thesis using set_drop_subset [of n xs] by auto
    qed
  qed
qed

lemma cat_results_all_Inr:
  "(\<And>x. x \<in> set xs \<Longrightarrow> f x = Inr (g x)) \<Longrightarrow>
   cat_results (map f xs) = Inr (concat (map g xs))"
  by (induction xs) auto

lemma cat_results_first_error:
  assumes "\<And>x. x \<in> set xs \<Longrightarrow> f x = Inl e \<or> (\<exists>y. f x = Inr y)"
    and "\<exists>x \<in> set xs. f x = Inl e"
  shows "cat_results (map f xs) = Inl e"
  using assms
proof (induction xs)
  case Nil
  then show ?case by simp
next
  case (Cons x xs)
  show ?case
  proof (cases "f x")
    case (Inl e')
    with Cons.prems(1) [of x] show ?thesis by simp
  next
    case (Inr y)
    with Cons.prems(2) have "\<exists>x \<in> set xs. f x = Inl e" by auto
    with Cons.IH Cons.prems(1) have "cat_results (map f xs) = Inl e" by simp
    with Inr show ?thesis by simp
  qed
qed

lemma pack_26_Inl:
  "63 < length p \<Longrightarrow> ser_type_length format p = Inl BitstructError"
  by (cases format) (simp_all add: ser_type_length_def pack_def pack_u_def)

lemma bcdplus_lookup_None:
  "bcdplus_lookup c = None \<longleftrightarrow> c \<notin> {48, 49, 50, 51, 52, 53, 54, 55, 56, 57, 32, 45, 46}"
  by (simp add: bcdplus_lookup_def bcdplus_table_def)

lemma bcdplus_lookup_range: "bcdplus_lookup c = Some v \<Longrightarrow> 0 \<le> v \<and> v < 16"
  by (auto simp: bcdplus_lookup_def bcdplus_table_def split: if_splits)

lemma those_None: "those xs = None \<longleftrightarrow> None \<in> set xs"
  by (induction xs) (auto split: option.splits)

lemma those_Some: "those xs = Some ys \<longleftrightarrow> xs = map Some ys"
  by (induction xs arbitrary: ys) (auto split: option.splits)

lemma ser_bcd_plus_chunk_cases:
  assumes "length chunk = 2"
  shows "(\<exists>c \<in> set chunk. bcdplus_lookup c = None) \<and> ser_bcd_plus_chunk chunk = Inl KeyError
       \<or> (\<forall>c \<in> set chunk. bcdplus_lookup c \<noteq> None) \<and> (\<exists>y. ser_bcd_plus_chunk chunk = Inr y)"
proof -
  from assms obtain a b where chunk: "chunk = [a, b]"
    by (cases chunk; cases "tl chunk") auto
  show ?thesis
  proof (cases "bcdplus_lookup a = None \<or> bcdplus_lookup b = None")
    case True
    then show ?thesis by (auto simp: chunk ser_bcd_plus_chunk_def split: option.splits)
  next
    case False
    then obtain x y where xy: "bcdplus_lookup a = Some x" "bcdplus_lookup b = Some y" by auto
    from bcdplus_lookup_range [OF xy(1)] bcdplus_lookup_range [OF xy(2)]
    show ?thesis
      by (simp add: chunk ser_bcd_plus_chunk_def xy pack_def pack_u_def)
  qed
qed

text \<open>
  C8.  \<^verbatim>\<open>StringField.serialize\<close> raises, and returns no bytes, whenever the encoder of its
  format returns a payload of more than 63 bytes (the 6-bit length group of the header
  refuses the length), and, for \<^verbatim>\<open>BCD_PLUS\<close>, whenever the value has a character other
  than the digits, the space, \<^verbatim>\<open>-\<close> and \<^verbatim>\<open>.\<close> (the table lookup fails).
\<close>

theorem string_serialize_fails:
  "((case format of BIN \<Rightarrow> ser_plain | BCD_PLUS \<Rightarrow> ser_bcd_plus
       | ASCII_6BIT \<Rightarrow> ser_6bit upper | ASCII_8BIT \<Rightarrow> ser_plain) v = Inr payload
      \<and> 63 < length payload
    \<longrightarrow> StringField_serialize upper v format = Inl BitstructError)
   \<and> (c \<in> set s \<and> c \<notin> {48, 49, 50, 51, 52, 53, 54, 55, 56, 57, 32, 45, 46}
        \<longrightarrow> StringField_serialize upper (SStr s) BCD_PLUS = Inl KeyError)"
proof (intro conjI impI)
  assume "(case format of BIN \<Rightarrow> ser_plain | BCD_PLUS \<Rightarrow> ser_bcd_plus
       | ASCII_6BIT \<Rightarrow> ser_6bit upper | ASCII_8BIT \<Rightarrow> ser_plain) v = Inr payload
      \<and> 63 < length payload"
  then show "StringField_serialize upper v format = Inl BitstructError"
    by (simp add: StringField_serialize_def pack_26_Inl)
next
  assume a: "c \<in> set s \<and> c \<notin> {48, 49, 50, 51, 52, 53, 54, 55, 56, 57, 32, 45, 46}"
  then have "c \<notin> {48, 49, 50, 51, 52, 53, 54, 55, 56, 57, 32, 45, 46}" by (rule conjunct2)
  then have bad: "bcdplus_lookup c = None" by (rule iffD2 [OF bcdplus_lookup_None])
  from a have cs: "c \<in> set s" by simp
  have "\<exists>chunk \<in> set (grouper 2 s 32). c \<in> set chunk"
    by (rule grouper_set [OF _ cs]) simp
  then obtain chunk where
    chunk: "chunk \<in> set (grouper 2 s 32)" "c \<in> set chunk" by blast
  have "ser_bcd_plus_chunk chunk = Inl KeyError"
    using ser_bcd_plus_chunk_cases [OF grouper_chunk_length [OF chunk(1)]] chunk(2) bad by auto
  with chunk(1) have ex: "\<exists>x \<in> set (grouper 2 s 32). ser_bcd_plus_chunk x = Inl KeyError" by blast
  have "cat_results (map ser_bcd_plus_chunk (grouper 2 s 32)) = Inl KeyError"
  proof (rule cat_results_first_error [OF _ ex])
    fix x assume "x \<in> set (grouper 2 s 32)"
    from ser_bcd_plus_chunk_cases [OF grouper_chunk_length [OF this]]
    show "ser_bcd_plus_chunk x = Inl KeyError \<or> (\<exists>y. ser_bcd_plus_chunk x = Inr y)" by blast
  qed
  then show "StringField_serialize upper (SStr s) BCD_PLUS = Inl KeyError"
    by (simp add: StringField_serialize_def)
qed

theorem string_serialize_fails_witness:
  "((case ASCII_8BIT of BIN \<Rightarrow> ser_plain | BCD_PLUS \<Rightarrow> ser_bcd_plus
       | ASCII_6BIT \<Rightarrow> ser_6bit ascii_upper | ASCII_8BIT \<Rightarrow> ser_plain)
        (SStr (replicate 64 65)) = Inr (replicate 64 0x41)
      \<and> 63 < length (replicate 64 (0x41 :: byte)))
   \<and> StringField_serialize ascii_upper (SStr (replicate 64 65)) ASCII_8BIT = Inl BitstructError
   \<and> (97 \<in> set (str_of ''1a'') \<and> 97 \<notin> {48, 49, 50, 51, 52, 53, 54, 55, 56, 57, 32, 45, 46 :: nat})
   \<and> StringField_serialize ascii_upper (SStr (str_of ''1a'')) BCD_PLUS = Inl KeyError"
proof -
  have h1: "(case ASCII_8BIT of BIN \<Rightarrow> ser_plain | BCD_PLUS \<Rightarrow> ser_bcd_plus
       | ASCII_6BIT \<Rightarrow> ser_6bit ascii_upper | ASCII_8BIT \<Rightarrow> ser_plain)
        (SStr (replicate 64 65)) = Inr (replicate 64 0x41)
      \<and> 63 < length (replicate 64 (0x41 :: byte))"
    by code_simp
  have h2: "97 \<in> set (str_of ''1a'') \<and> 97 \<notin> {48, 49, 50, 51, 52, 53, 54, 55, 56, 57, 32, 45, 46 :: nat}"
    by (simp add: str_of_def)
  from string_serialize_fails [where format = ASCII_8BIT and upper = ascii_upper
      and v = "SStr (replicate 64 65)" and payload = "replicate 64 0x41" and c = 97
      and s = "str_of ''1a''"] h1 h2
  show ?thesis by blast
qed

section \<open>Decoding ASCII_6BIT payloads\<close>

lemma unat_byte_of_int: "0 \<le> y \<Longrightarrow> y < 256 \<Longrightarrow> unat (word_of_int y :: byte) = nat y"
  by (simp add: unat_eq_nat_uint uint_word_of_int)

lemma utf8_decode_nat_ascii:
  "list_all (\<lambda>b. b < 128) bs \<Longrightarrow> utf8_decode_nat bs = Inr bs"
  by (induction bs) (simp_all add: utf8_head_def)

lemma utf8_decode_ascii:
  "list_all (\<lambda>b. unat b < 128) bs \<Longrightarrow> utf8_decode bs = Inr (map unat bs)"
  unfolding utf8_decode_def by (rule utf8_decode_nat_ascii) (simp add: list_all_iff)

lemma unpack_from_any_MSB_bound:
  "x \<in> set (unpack_from_any MSB_first bits off infos) \<Longrightarrow>
   \<exists>sz \<in> set infos. 0 \<le> x \<and> x < 2 ^ sz"
proof (induction infos arbitrary: off)
  case Nil
  then show ?case by simp
next
  case (Cons sz infos)
  from Cons.prems have "x = int (nat_of_bits (take sz (drop off bits)))
      \<or> x \<in> set (unpack_from_any MSB_first bits (off + sz) infos)"
    by (simp add: Let_def)
  then show ?case
  proof
    assume x: "x = int (nat_of_bits (take sz (drop off bits)))"
    have "nat_of_bits (take sz (drop off bits)) < 2 ^ length (take sz (drop off bits))"
      by (rule nat_of_bits_lt)
    also have "\<dots> \<le> 2 ^ sz" by (rule power_increasing) simp_all
    finally have "x < 2 ^ sz" unfolding x by (simp add: of_nat_less_iff [symmetric] del: of_nat_less_iff)
    then show ?thesis using x by auto
  next
    assume "x \<in> set (unpack_from_any MSB_first bits (off + sz) infos)"
    from Cons.IH [OF this] show ?thesis by auto
  qed
qed

lemma length_unpack_from_any [simp]:
  "length (unpack_from_any bo bits off infos) = length infos"
  by (induction infos arbitrary: off) (simp_all add: Let_def)

lemma unpack_6666:
  assumes "length bs = 3"
  shows "\<exists>tmp. unpack MSB_first [6, 6, 6, 6] bs = Inr tmp \<and> length tmp = 4
               \<and> (\<forall>x \<in> set tmp. 0 \<le> x \<and> x < 64)"
proof -
  have u: "unpack MSB_first [6, 6, 6, 6] bs
        = Inr (unpack_from_any MSB_first (bits_of_bytes bs) 0 [6, 6, 6, 6])"
    using assms by (simp add: unpack_def Let_def)
  have "\<forall>x \<in> set (unpack_from_any MSB_first (bits_of_bytes bs) 0 [6, 6, 6, 6]). 0 \<le> x \<and> x < 64"
  proof
    fix x assume "x \<in> set (unpack_from_any MSB_first (bits_of_bytes bs) 0 [6, 6, 6, 6])"
    from unpack_from_any_MSB_bound [OF this] show "0 \<le> x \<and> x < 64" by simp
  qed
  with u show ?thesis by simp
qed

lemma deser_6bit_chunk_full:
  assumes "length bs = 3"
  shows "\<exists>out. deser_6bit_chunk (map Some bs) = Inr out \<and> list_all (\<lambda>b. unat b < 128) out"
proof -
  have th: "those (rev (map Some bs)) = Some (rev bs)"
    by (simp add: those_Some rev_map)
  from unpack_6666 [of "rev bs"] assms obtain tmp where
    tmp: "unpack MSB_first [6, 6, 6, 6] (rev bs) = Inr tmp"
    and b: "\<forall>x \<in> set tmp. 0 \<le> x \<and> x < 64" by auto
  have "list_all (\<lambda>b. unat b < 128) (map (\<lambda>x. word_of_int (x + 0x20) :: byte) (rev tmp))"
    unfolding list_all_iff
  proof (rule ballI)
    fix w :: byte assume "w \<in> set (map (\<lambda>x. word_of_int (x + 0x20)) (rev tmp))"
    then obtain x where x: "x \<in> set tmp" and w: "w = word_of_int (x + 0x20)" by auto
    from b x have "0 \<le> x + 0x20" "x + 0x20 < 256" by auto
    from unat_byte_of_int [OF this] b x show "unat w < 128" unfolding w by auto
  qed
  then show ?thesis by (simp add: deser_6bit_chunk_def th tmp)
qed

lemma deser_6bit_chunk_pad:
  "None \<in> set chunk \<Longrightarrow> deser_6bit_chunk chunk = Inl TypeError"
proof -
  assume "None \<in> set chunk"
  then have "those (rev chunk) = None" by (simp add: those_None)
  then show ?thesis by (simp add: deser_6bit_chunk_def)
qed

lemma grouper_Some_chunks:
  assumes "c \<in> set (grouper 3 (map Some p) None)"
  shows "None \<in> set c \<or> (\<exists>bs. length bs = 3 \<and> c = map Some bs)"
proof (cases "None \<in> set c")
  case True
  then show ?thesis by simp
next
  case False
  from grouper_chunk_set [OF assms] False have "set c \<subseteq> range Some" by auto
  then have "c = map Some (map the c)"
    by (induction c) auto
  moreover have "length (map the c) = 3" using grouper_chunk_length [OF assms] by simp
  ultimately show ?thesis by blast
qed

lemma grouper_pad_present:
  "0 < n \<Longrightarrow> length xs mod n \<noteq> 0 \<Longrightarrow> \<exists>c \<in> set (grouper n xs p). p \<in> set c"
proof (induction n xs p rule: grouper.induct)
  case (1 n xs p)
  from "1.prems" have ne: "\<not> (n = 0 \<or> xs = [])" by auto
  then have g: "grouper n xs p = (take n xs @ replicate (n - length xs) p) # grouper n (drop n xs) p"
    by (simp add: grouper_step)
  show ?case
  proof (cases "length xs < n")
    case True
    then show ?thesis by (simp add: g)
  next
    case False
    then have "length (drop n xs) mod n = length xs mod n" by (simp add: le_mod_geq)
    with "1.prems" have "length (drop n xs) mod n \<noteq> 0" by simp
    from "1.IH" [OF ne "1.prems"(1) this] show ?thesis by (auto simp: g)
  qed
qed

lemma grouper_no_pad:
  "0 < n \<Longrightarrow> length xs mod n = 0 \<Longrightarrow> c \<in> set (grouper n xs p) \<Longrightarrow> set c \<subseteq> set xs"
proof (induction n xs p rule: grouper.induct)
  case (1 n xs p)
  show ?case
  proof (cases "xs = []")
    case True
    with "1.prems" show ?thesis by simp
  next
    case False
    with "1.prems" have ne: "\<not> (n = 0 \<or> xs = [])" by auto
    then have g: "grouper n xs p = (take n xs @ replicate (n - length xs) p) # grouper n (drop n xs) p"
      by (simp add: grouper_step)
    have len: "n \<le> length xs"
    proof (rule ccontr)
      assume "\<not> n \<le> length xs"
      then have "length xs mod n = length xs" by simp
      with "1.prems"(2) False show False by simp
    qed
    then have m: "length (drop n xs) mod n = 0" using "1.prems"(2) by (simp add: le_mod_geq)
    from "1.prems"(3) [unfolded g] have "c = take n xs \<or> c \<in> set (grouper n (drop n xs) p)"
      using len by simp
    then show ?thesis
    proof
      assume "c = take n xs"
      then show ?thesis using set_take_subset [of n xs] by simp
    next
      assume "c \<in> set (grouper n (drop n xs) p)"
      from "1.IH" [OF ne "1.prems"(1) m this] show ?thesis using set_drop_subset [of n xs] by auto
    qed
  qed
qed

lemma list_all_concat_results:
  assumes "\<And>x. x \<in> set xs \<Longrightarrow> \<exists>y. f x = Inr y \<and> list_all P y"
  shows "\<exists>ys. cat_results (map f xs) = Inr ys \<and> list_all P ys"
  using assms
proof (induction xs)
  case Nil
  then show ?case by simp
next
  case (Cons x xs)
  from Cons.prems [of x] obtain y where y: "f x = Inr y" "list_all P y" by auto
  from Cons.IH Cons.prems obtain ys where ys: "cat_results (map f xs) = Inr ys" "list_all P ys"
    by auto
  show ?case using y ys by simp
qed

lemma deser_6bit_multiple_of_3:
  assumes "length p mod 3 = 0"
  shows "\<exists>s. deser_6bit p = Inr s"
proof -
  have "\<exists>ys. cat_results (map deser_6bit_chunk (grouper 3 (map Some p) None)) = Inr ys
           \<and> list_all (\<lambda>b. unat b < 128) ys"
  proof (rule list_all_concat_results)
    fix c assume c: "c \<in> set (grouper 3 (map Some p) None)"
    have "set c \<subseteq> set (map Some p)"
      by (rule grouper_no_pad [OF _ _ c]) (simp_all add: assms)
    then have "None \<notin> set c" by auto
    with grouper_Some_chunks [OF c] obtain bs where "length bs = 3" "c = map Some bs" by auto
    with deser_6bit_chunk_full [of bs]
    show "\<exists>y. deser_6bit_chunk c = Inr y \<and> list_all (\<lambda>b. unat b < 128) y" by simp
  qed
  then obtain ys where "cat_results (map deser_6bit_chunk (grouper 3 (map Some p) None)) = Inr ys"
    and "list_all (\<lambda>b. unat b < 128) ys" by blast
  then show ?thesis by (simp add: deser_6bit_def utf8_decode_ascii)
qed

lemma deser_6bit_not_multiple_of_3:
  assumes "length p mod 3 \<noteq> 0"
  shows "deser_6bit p = Inl TypeError"
proof -
  have "\<exists>c \<in> set (grouper 3 (map Some p) None). None \<in> set c"
    by (rule grouper_pad_present) (simp_all add: assms)
  then have ex: "\<exists>c \<in> set (grouper 3 (map Some p) None). deser_6bit_chunk c = Inl TypeError"
    using deser_6bit_chunk_pad by blast
  have "cat_results (map deser_6bit_chunk (grouper 3 (map Some p) None)) = Inl TypeError"
  proof (rule cat_results_first_error [OF _ ex])
    fix c assume c: "c \<in> set (grouper 3 (map Some p) None)"
    from grouper_Some_chunks [OF c]
    show "deser_6bit_chunk c = Inl TypeError \<or> (\<exists>y. deser_6bit_chunk c = Inr y)"
      using deser_6bit_chunk_pad deser_6bit_chunk_full by blast
  qed
  then show ?thesis by (simp add: deser_6bit_def)
qed

text \<open>
  C10, as stated, fails: the payload is cut out of what is left of the buffer, so a
  header that announces 4 bytes in front of only 3 is decoded as a payload of 3 bytes.
\<close>

theorem deser_6bit_truncated_counterexample:
  "unpack MSB_first [2, 6] [0x84] = Inr [2, 4]
   \<and> (4 :: int) mod 3 \<noteq> 0
   \<and> StringField_deserialize (SStr []) BIN [0x84, 0x29, 0xDC, 0xA6]
       = (Inr [], (SStr (str_of ''IPMI''), ASCII_6BIT))"
  by code_simp

text \<open>
  C10, amended.  \<^verbatim>\<open>StringField.deserialize\<close> of a buffer whose header selects
  \<^verbatim>\<open>ASCII_6BIT\<close> succeeds exactly when the number of payload bytes it takes from the
  buffer (the length announced by the header, or what is left of the buffer when that is
  less) is a multiple of 3; then it stores a string and returns the rest of the buffer.
  Otherwise it fails with a \<^verbatim>\<open>TypeError\<close> and stores no string: the field keeps its value,
  with its format already set to \<^verbatim>\<open>ASCII_6BIT\<close>.
\<close>

theorem deser_6bit_payload_multiple_of_3:
  assumes "unpack MSB_first [2, 6] (take 1 input) = Inr [2, l]"
  shows "if length (take (nat l) (drop 1 input)) mod 3 = 0
         then \<exists>s. StringField_deserialize v format input
                    = (Inr (drop (nat l) (drop 1 input)), (SStr s, ASCII_6BIT))
         else StringField_deserialize v format input = (Inl TypeError, (v, ASCII_6BIT))"
proof (cases "length (take (nat l) (drop 1 input)) mod 3 = 0")
  case True
  from deser_6bit_multiple_of_3 [OF this] obtain s where
    "deser_6bit (take (nat l) (drop 1 input)) = Inr s" by blast
  then show ?thesis using True assms by (simp add: StringField_deserialize_def Let_def)
next
  case False
  from deser_6bit_not_multiple_of_3 [OF this]
  show ?thesis using False assms by (simp add: StringField_deserialize_def Let_def)
qed

theorem deser_6bit_payload_multiple_of_3_witness:
  "unpack MSB_first [2, 6] (take 1 [0x83, 0x29, 0xDC]) = Inr [2, 3]
   \<and> StringField_deserialize (SStr (str_of ''old'')) BIN [0x83, 0x29, 0xDC]
       = (Inl TypeError, (SStr (str_of ''old''), ASCII_6BIT))"
proof -
  have h: "unpack MSB_first [2, 6] (take 1 [0x83, 0x29, 0xDC]) = Inr [2, 3]"
    by code_simp
  from deser_6bit_payload_multiple_of_3 [OF h, of "SStr (str_of ''old'')" BIN] h
  show ?thesis by simp
qed

section \<open>Size and serialized length of a string field\<close>

text \<open>
  C5.  \<^verbatim>\<open>size()\<close> and the length of \<^verbatim>\<open>serialize()\<close> differ for a string field with a
  character beyond ASCII: for the value \<^verbatim>\<open>'\xe9'\<close> (one character, code point 233, the letter e with an acute accent) and
  the format \<^verbatim>\<open>ASCII_8BIT\<close>, \<^verbatim>\<open>size()\<close> is 2, one header byte and one character,
  while \<^verbatim>\<open>serialize()\<close> returns the 3 bytes \<^verbatim>\<open>C2 C3 A9\<close>, the header (which announces a
  payload of 2 bytes) and the two bytes of the character in UTF-8.
\<close>

theorem size_counts_characters_not_bytes:
  "StringField_size (SStr [233]) ASCII_8BIT = Inr 2
   \<and> StringField_serialize upper (SStr [233]) ASCII_8BIT = Inr [0xC2, 0xC3, 0xA9]
   \<and> int (length [0xC2, 0xC3, 0xA9 :: byte]) \<noteq> 2"
  by code_simp

section \<open>The ASCII_6BIT encoding rule\<close>

lemma chunks_Nil [simp]: "chunks n [] = []"
  by (simp add: chunks.simps)

lemma chunks_step:
  "0 < n \<Longrightarrow> xs \<noteq> [] \<Longrightarrow> chunks n xs = take n xs # chunks n (drop n xs)"
  by (subst chunks.simps) simp

lemma grouper_eq_chunks:
  "0 < n \<Longrightarrow> grouper n xs p = chunks n (xs @ replicate ((n - length xs mod n) mod n) p)"
proof (induction n xs p rule: grouper.induct)
  case (1 n xs p)
  show ?case
  proof (cases "xs = []")
    case True
    then show ?thesis using "1.prems" by simp
  next
    case False
    with "1.prems" have ne: "\<not> (n = 0 \<or> xs = [])" by simp
    have g: "grouper n xs p = (take n xs @ replicate (n - length xs) p) # grouper n (drop n xs) p"
      using ne by (simp add: grouper_step)
    show ?thesis
    proof (cases "length xs < n")
      case True
      moreover have "0 < length xs" using False by simp
      ultimately have pad: "(n - length xs) mod n = n - length xs" by simp
      have "chunks n (xs @ replicate (n - length xs) p) = [xs @ replicate (n - length xs) p]"
        using True "1.prems" False by (simp add: chunks_step)
      then show ?thesis using True by (simp add: g pad)
    next
      case False
      then have len: "n \<le> length xs" by simp
      then have m: "length (drop n xs) mod n = length xs mod n" by (simp add: le_mod_geq)
      have IH: "grouper n (drop n xs) p
          = chunks n (drop n xs @ replicate ((n - length xs mod n) mod n) p)"
        using "1.IH" [OF ne "1.prems"] m by simp
      have "chunks n (xs @ replicate ((n - length xs mod n) mod n) p)
          = take n xs # chunks n (drop n xs @ replicate ((n - length xs mod n) mod n) p)"
        using len "1.prems" \<open>xs \<noteq> []\<close> by (simp add: chunks_step)
      then show ?thesis using len by (simp add: g IH)
    qed
  qed
qed

lemma nat_of_bits_take_drop:
  "nat_of_bits b = nat_of_bits (take k b) * 2 ^ (length b - k) + nat_of_bits (drop k b)"
  using nat_of_bits_append [of "take k b" "drop k b"] by simp

lemma nat_of_bits_drop: "nat_of_bits (drop k b) = nat_of_bits b mod 2 ^ (length b - k)"
proof -
  have "nat_of_bits (drop k b) < 2 ^ (length b - k)"
    using nat_of_bits_lt [of "drop k b"] by simp
  then show ?thesis using nat_of_bits_take_drop [of b k] by simp
qed

lemma nat_of_bits_take: "nat_of_bits (take k b) = nat_of_bits b div 2 ^ (length b - k)"
proof -
  have "nat_of_bits (drop k b) < 2 ^ (length b - k)"
    using nat_of_bits_lt [of "drop k b"] by simp
  then show ?thesis using nat_of_bits_take_drop [of b k] by simp
qed

lemma bytes_of_bits_24:
  assumes "length b = 24"
  shows "bytes_of_bits b
         = [byte_of_bits (take 8 b), byte_of_bits (take 8 (drop 8 b)), byte_of_bits (drop 16 b)]"
proof -
  have 1: "bytes_of_bits b = byte_of_bits (take 8 b) # bytes_of_bits (drop 8 b)"
    using bytes_of_bits_append8 [of "take 8 b" "drop 8 b"] assms by simp
  have e: "take 8 (drop 8 b) @ drop 16 b = drop 8 b"
    using append_take_drop_id [of 8 "drop 8 b"] by simp
  have "length (take 8 (drop 8 b)) = 8" using assms by simp
  from bytes_of_bits_append8 [OF this, of "drop 16 b"]
  have 2: "bytes_of_bits (drop 8 b)
      = byte_of_bits (take 8 (drop 8 b)) # bytes_of_bits (drop 16 b)"
    unfolding e .
  have 3: "bytes_of_bits (drop 16 b) = [byte_of_bits (drop 16 b)]"
    using bytes_of_bits_append8 [of "drop 16 b" "[]"] assms by simp
  show ?thesis by (simp only: 1 2 3)
qed

lemma bytes_of_bits_split3:
  assumes "length b = 24"
  shows "bytes_of_bits b = split3 (nat_of_bits b)"
proof -
  define N where "N = nat_of_bits b"
  have a: "nat_of_bits (take 8 b) = N div 65536"
    using nat_of_bits_take [of 8 b] assms by (simp add: N_def)
  have "nat_of_bits (drop 8 b) = N mod 65536"
    using nat_of_bits_drop [of 8 b] assms by (simp add: N_def)
  then have "nat_of_bits (take 8 (drop 8 b)) = N mod 65536 div 256"
    using nat_of_bits_take [of 8 "drop 8 b"] assms by simp
  moreover have "N mod 65536 div 256 = N div 256 mod 256"
  proof -
    have "N mod (256 * 256) = 256 * (N div 256 mod 256) + N mod 256"
      by (rule mod_mult2_eq)
    then have "N mod 65536 div 256 = (256 * (N div 256 mod 256) + N mod 256) div 256"
      by simp
    also have "\<dots> = N div 256 mod 256" by simp
    finally show ?thesis .
  qed
  ultimately have b: "nat_of_bits (take 8 (drop 8 b)) = N div 256 mod 256" by simp
  have c: "nat_of_bits (drop 16 b) = N mod 256"
    using nat_of_bits_drop [of 16 b] assms by (simp add: N_def)
  show ?thesis
    unfolding bytes_of_bits_24 [OF assms] byte_of_bits_def a b c split3_def N_def [symmetric]
    by (rule refl)
qed

lemma pad_tail_aligned: "length bits mod 8 = 0 \<Longrightarrow> pad_tail bits = bits"
  by (simp add: pad_tail_def)

lemma pack_6666:
  assumes "0 \<le> a" "a < 64" "0 \<le> b" "b < 64" "0 \<le> c" "c < 64" "0 \<le> d" "d < 64"
  shows "pack MSB_first [6, 6, 6, 6] [a, b, c, d]
         = Inr (split3 (stream24 [nat a, nat b, nat c, nat d]))"
proof -
  define bits where "bits = bits_of 6 (nat a) @ bits_of 6 (nat b) @ bits_of 6 (nat c) @ bits_of 6 (nat d)"
  have len: "length bits = 24" by (simp add: bits_def)
  have pa: "pack_any MSB_first [6, 6, 6, 6] [a, b, c, d] [] = Inr bits"
    using assms by (simp add: pack_u_def pack_value_def bits_def)
  have m: "nat a mod 64 = nat a" "nat b mod 64 = nat b" "nat c mod 64 = nat c" "nat d mod 64 = nat d"
    using assms by simp_all
  have "nat_of_bits bits = stream24 [nat a, nat b, nat c, nat d]"
    by (simp add: bits_def nat_of_bits_append nat_of_bits_bits_of m stream24_def)
  then have "bytes_of_bits (pad_tail bits) = split3 (stream24 [nat a, nat b, nat c, nat d])"
    using bytes_of_bits_split3 [OF len] len by (simp add: pad_tail_aligned)
  moreover have "pack MSB_first [6, 6, 6, 6] [a, b, c, d]
      = (case pack_any MSB_first [6, 6, 6, 6] [a, b, c, d] [] of
           Inl e \<Rightarrow> Inl e
         | Inr bits \<Rightarrow> Inr (bytes_of_bits (pad_tail bits)))"
    by (simp add: pack_def del: pack_any.simps)
  ultimately show ?thesis unfolding pa by simp
qed

lemma pack_6666_bad:
  assumes "\<not> (0 \<le> a \<and> a < 64 \<and> 0 \<le> b \<and> b < 64 \<and> 0 \<le> c \<and> c < 64 \<and> 0 \<le> d \<and> d < 64)"
  shows "pack MSB_first [6, 6, 6, 6] [a, b, c, d] = Inl BitstructError"
  using assms by (auto simp: pack_def pack_u_def pack_value_def)

lemma ser_6bit_chunk_ok:
  assumes "length chunk = 4" "list_all sixbit_char chunk"
  shows "ser_6bit_chunk chunk = Inr (amended_6bit_chunk chunk)"
proof -
  from assms(1) obtain c1 c2 c3 c4 where chunk: "chunk = [c1, c2, c3, c4]"
    by (auto simp: length_Suc_conv numeral_eq_Suc)
  from assms(2) have r: "32 \<le> c1" "c1 \<le> 95" "32 \<le> c2" "c2 \<le> 95" "32 \<le> c3" "c3 \<le> 95"
    "32 \<le> c4" "c4 \<le> 95" by (simp_all add: chunk sixbit_char_def)
  have n: "nat (int c1 - 32) = c1 - 32" "nat (int c2 - 32) = c2 - 32"
    "nat (int c3 - 32) = c3 - 32" "nat (int c4 - 32) = c4 - 32" by simp_all
  have "pack MSB_first [6, 6, 6, 6] [int c4 - 32, int c3 - 32, int c2 - 32, int c1 - 32]
      = Inr (split3 (stream24 [c4 - 32, c3 - 32, c2 - 32, c1 - 32]))"
    using pack_6666 [of "int c4 - 32" "int c3 - 32" "int c2 - 32" "int c1 - 32"] r
    by (simp only: n)
  then show ?thesis by (simp add: ser_6bit_chunk_def chunk amended_6bit_chunk_def)
qed

lemma ser_6bit_chunk_bad:
  assumes "length chunk = 4" "\<not> list_all sixbit_char chunk"
  shows "ser_6bit_chunk chunk = Inl BitstructError"
proof -
  from assms(1) obtain c1 c2 c3 c4 where chunk: "chunk = [c1, c2, c3, c4]"
    by (auto simp: length_Suc_conv numeral_eq_Suc)
  from assms(2) have "\<not> (0 \<le> int c4 - 32 \<and> int c4 - 32 < 64 \<and> 0 \<le> int c3 - 32 \<and> int c3 - 32 < 64
      \<and> 0 \<le> int c2 - 32 \<and> int c2 - 32 < 64 \<and> 0 \<le> int c1 - 32 \<and> int c1 - 32 < 64)"
    by (auto simp: chunk sixbit_char_def)
  from pack_6666_bad [OF this] show ?thesis by (simp add: ser_6bit_chunk_def chunk)
qed

lemma grouper_4_eq_chunks: "grouper 4 xs 32 = chunks 4 (pad_spaces 4 xs)"
  unfolding pad_spaces_def by (rule grouper_eq_chunks) simp

lemma sixbit_chunk:
  assumes "list_all sixbit_char xs" "c \<in> set (grouper 4 xs 32)"
  shows "list_all sixbit_char c"
proof -
  have "set c \<subseteq> insert 32 (set xs)" by (rule grouper_chunk_set [OF assms(2)])
  moreover have "sixbit_char 32" by (simp add: sixbit_char_def)
  ultimately show ?thesis using assms(1) by (auto simp: list_all_iff)
qed

text \<open>
  C4, as stated, fails: packed with the first character most significant, the chunk
  \<^verbatim>\<open>"IPMI"\<close> gives \<^verbatim>\<open>69 0B A7\<close>, where the code gives \<^verbatim>\<open>29 DC A6\<close>.
\<close>

theorem ser_6bit_first_char_most_significant_counterexample:
  "ser_6bit ascii_upper (SStr (str_of ''IPMI'')) = Inr [0x29, 0xDC, 0xA6]
   \<and> spec_6bit ascii_upper (str_of ''IPMI'') = [0x69, 0x0B, 0xA7]
   \<and> [0x29, 0xDC, 0xA6] \<noteq> [0x69, 0x0B, 0xA7 :: byte]"
proof -
  have "ser_6bit ascii_upper (SStr (str_of ''IPMI'')) = Inr [0x29, 0xDC, 0xA6]"
    by code_simp
  moreover have "spec_6bit ascii_upper (str_of ''IPMI'') = [0x69, 0x0B, 0xA7]"
    by (simp add: spec_6bit_def str_upper_def ascii_def ascii_upper_def str_of_def
        pad_spaces_def chunks_step spec_6bit_chunk_def stream24_def split3_def)
  ultimately show ?thesis by simp
qed

text \<open>
  C4, amended.  The \<^verbatim>\<open>ASCII_6BIT\<close> encoding of every string follows this rule: upper-case
  the input, pad it with trailing spaces to a multiple of 4 characters, and for each
  chunk of 4 characters subtract \<open>0x20\<close> from each character code, pack the 4 six-bit
  codes into a 24-bit stream with the last character of the chunk most significant,
  split that stream into 3 bytes and reverse the order of these 3 bytes.  A string with
  an upper-cased character outside \<open>0x20\<close>..\<open>0x5F\<close>, whose code does not fit in 6 bits,
  is refused.
\<close>

theorem ser_6bit_rule:
  "ser_6bit upper (SStr s)
   = (if list_all sixbit_char (str_upper upper s) then Inr (amended_6bit upper s)
      else Inl BitstructError)"
proof (cases "list_all sixbit_char (str_upper upper s)")
  case True
  have "cat_results (map ser_6bit_chunk (grouper 4 (str_upper upper s) 32))
        = Inr (concat (map amended_6bit_chunk (grouper 4 (str_upper upper s) 32)))"
  proof (rule cat_results_all_Inr)
    fix c assume c: "c \<in> set (grouper 4 (str_upper upper s) 32)"
    show "ser_6bit_chunk c = Inr (amended_6bit_chunk c)"
      by (rule ser_6bit_chunk_ok [OF grouper_chunk_length [OF c] sixbit_chunk [OF True c]])
  qed
  then show ?thesis using True by (simp add: amended_6bit_def grouper_4_eq_chunks)
next
  case False
  then obtain x where x: "x \<in> set (str_upper upper s)" "\<not> sixbit_char x"
    by (auto simp: list_all_iff)
  have "\<exists>c \<in> set (grouper 4 (str_upper upper s) 32). x \<in> set c"
    by (rule grouper_set [OF _ x(1)]) simp
  then obtain c where c: "c \<in> set (grouper 4 (str_upper upper s) 32)" "x \<in> set c" by blast
  with x(2) have "\<not> list_all sixbit_char c" by (auto simp: list_all_iff)
  from ser_6bit_chunk_bad [OF grouper_chunk_length [OF c(1)] this] c(1)
  have ex: "\<exists>c \<in> set (grouper 4 (str_upper upper s) 32). ser_6bit_chunk c = Inl BitstructError"
    by blast
  have "cat_results (map ser_6bit_chunk (grouper 4 (str_upper upper s) 32)) = Inl BitstructError"
  proof (rule cat_results_first_error [OF _ ex])
    fix c assume c: "c \<in> set (grouper 4 (str_upper upper s) 32)"
    show "ser_6bit_chunk c = Inl BitstructError \<or> (\<exists>y. ser_6bit_chunk c = Inr y)"
      using ser_6bit_chunk_ok [OF grouper_chunk_length [OF c]]
        ser_6bit_chunk_bad [OF grouper_chunk_length [OF c]] by blast
  qed
  then show ?thesis using False by simp
qed

theorem ser_6bit_rule_witness:
  "list_all sixbit_char (str_upper ascii_upper (str_of ''abcde''))
   \<and> ser_6bit ascii_upper (SStr (str_of ''abcde'')) = Inr [0xA1, 0x38, 0x92, 0x25, 0x00, 0x00]
   \<and> amended_6bit ascii_upper (str_of ''abcde'') = [0xA1, 0x38, 0x92, 0x25, 0x00, 0x00]
   \<and> \<not> list_all sixbit_char (str_upper ascii_upper (str_of ''a~''))
   \<and> ser_6bit ascii_upper (SStr (str_of ''a~'')) = Inl BitstructError"
proof -
  have h1: "list_all sixbit_char (str_upper ascii_upper (str_of ''abcde''))" by code_simp
  have r3: "replicate 3 x = [x, x, x]" for x :: nat by (simp add: numeral_3_eq_3)
  have h2: "amended_6bit ascii_upper (str_of ''abcde'') = [0xA1, 0x38, 0x92, 0x25, 0x00, 0x00]"
    by (simp add: amended_6bit_def str_upper_def ascii_def ascii_upper_def str_of_def
        pad_spaces_def chunks_step amended_6bit_chunk_def stream24_def split3_def r3)
  have h3: "\<not> list_all sixbit_char (str_upper ascii_upper (str_of ''a~''))" by code_simp
  from ser_6bit_rule [of ascii_upper "str_of ''abcde''"] ser_6bit_rule [of ascii_upper "str_of ''a~''"]
    h1 h2 h3 show ?thesis by simp
qed

section \<open>UTF-8: decoding what was encoded\<close>

lemma unat_byte_of_nat: "n < 256 \<Longrightarrow> unat (word_of_nat n :: byte) = n"
  by (simp add: unat_of_nat)

lemma utf8_char_decode:
  assumes "utf8_char c = Inr bs"
  shows "utf8_decode_nat (map unat bs @ rest) = 
         (case utf8_decode_nat rest of Inl e \<Rightarrow> Inl e | Inr r \<Rightarrow> Inr (c # r))"
proof -
  consider (one) "c < 0x80" | (two) "0x80 \<le> c" "c < 0x800"
    | (three) "0x800 \<le> c" "c < 0x10000" "\<not> (0xD800 \<le> c \<and> c \<le> 0xDFFF)"
    | (four) "0x10000 \<le> c" "c < 0x110000"
    using assms by (auto simp: utf8_char_def split: if_splits)
  then show ?thesis
  proof cases
    case one
    then have "bs = [word_of_nat c]" using assms by (simp add: utf8_char_def)
    then show ?thesis using one by (simp add: unat_byte_of_nat utf8_head_def)
  next
    case two
    define q r where "q = c div 64" and "r = c mod 64"
    have c: "c = q * 64 + r" and r: "r < 64" by (simp_all add: q_def r_def)
    have q: "2 \<le> q" "q < 32" using two c r by simp_all
    have bs: "bs = [word_of_nat (0xC0 + q), word_of_nat (0x80 + r)]"
      using assms two by (simp add: utf8_char_def q_def r_def del: of_nat_add)
    have u: "unat (word_of_nat (0xC0 + q) :: byte) = 0xC0 + q"
      "unat (word_of_nat (0x80 + r) :: byte) = 0x80 + r"
      using q r by (simp_all add: unat_byte_of_nat del: of_nat_add)
    have "utf8_head (0xC0 + q) ((0x80 + r) # rest) = Some (c, 1)"
      using q r by (simp add: utf8_head_def cont_def c)
    then show ?thesis by (simp add: bs u del: of_nat_add)
  next
    case three
    define q1 r where "q1 = c div 64" and "r = c mod 64"
    define p m where "p = q1 div 64" and "m = q1 mod 64"
    have c1: "c = q1 * 64 + r" and r: "r < 64" by (simp_all add: q1_def r_def)
    have q1: "q1 = p * 64 + m" and m: "m < 64" by (simp_all add: p_def m_def)
    have c: "c = p * 4096 + m * 64 + r" using c1 q1 by simp
    have p4096: "c div 4096 = p" unfolding p_def q1_def by (simp add: div_mult2_eq)
    have p: "p < 16" using three c r m by simp
    have lo: "p = 0 \<longrightarrow> 32 \<le> m" using three c r m by auto
    have sur: "p = 13 \<longrightarrow> m < 32" using three c r m by auto
    have bs: "bs = [word_of_nat (0xE0 + p), word_of_nat (0x80 + m), word_of_nat (0x80 + r)]"
      using assms three
      by (simp add: utf8_char_def p4096 q1_def [symmetric] m_def [symmetric] r_def [symmetric]
          del: of_nat_add)
    have u: "unat (word_of_nat (0xE0 + p) :: byte) = 0xE0 + p"
      "unat (word_of_nat (0x80 + m) :: byte) = 0x80 + m"
      "unat (word_of_nat (0x80 + r) :: byte) = 0x80 + r"
      using p m r by (simp_all add: unat_byte_of_nat del: of_nat_add)
    have "utf8_head (0xE0 + p) ((0x80 + m) # (0x80 + r) # rest) = Some (c, 2)"
      using p m r lo sur by (auto simp: utf8_head_def cont_def c)
    then show ?thesis by (simp add: bs u del: of_nat_add)
  next
    case four
    define q1 r where "q1 = c div 64" and "r = c mod 64"
    define q2 m where "q2 = q1 div 64" and "m = q1 mod 64"
    define p k where "p = q2 div 64" and "k = q2 mod 64"
    have c1: "c = q1 * 64 + r" and r: "r < 64" by (simp_all add: q1_def r_def)
    have q1: "q1 = q2 * 64 + m" and m: "m < 64" by (simp_all add: q2_def m_def)
    have q2: "q2 = p * 64 + k" and k: "k < 64" by (simp_all add: p_def k_def)
    have c: "c = p * 262144 + k * 4096 + m * 64 + r" using c1 q1 q2 by simp
    have d4096: "c div 4096 = q2" unfolding q2_def q1_def by (simp add: div_mult2_eq)
    have d262144: "c div 262144 = p" unfolding p_def q2_def q1_def by (simp add: div_mult2_eq)
    have p: "p \<le> 4" using four c r m k by simp
    have lo: "p = 0 \<longrightarrow> 16 \<le> k" using four c r m k by auto
    have hi: "p = 4 \<longrightarrow> k < 16" using four c r m k by auto
    have bs: "bs = [word_of_nat (0xF0 + p), word_of_nat (0x80 + k), word_of_nat (0x80 + m),
                    word_of_nat (0x80 + r)]"
      using assms four
      by (simp add: utf8_char_def d262144 d4096 k_def [symmetric] q1_def [symmetric]
          m_def [symmetric] r_def [symmetric] del: of_nat_add)
    have u: "unat (word_of_nat (0xF0 + p) :: byte) = 0xF0 + p"
      "unat (word_of_nat (0x80 + k) :: byte) = 0x80 + k"
      "unat (word_of_nat (0x80 + m) :: byte) = 0x80 + m"
      "unat (word_of_nat (0x80 + r) :: byte) = 0x80 + r"
      using p k m r by (simp_all add: unat_byte_of_nat del: of_nat_add)
    have "utf8_head (0xF0 + p) ((0x80 + k) # (0x80 + m) # (0x80 + r) # rest) = Some (c, 3)"
      using p k m r lo hi by (auto simp: utf8_head_def cont_def c)
    then show ?thesis by (simp add: bs u del: of_nat_add)
  qed
qed

lemma utf8_roundtrip_nat:
  "utf8_encode s = Inr bs \<Longrightarrow> utf8_decode_nat (map unat bs) = Inr s"
proof (induction s arbitrary: bs)
  case Nil
  then show ?case by (simp add: utf8_encode_def)
next
  case (Cons c s)
  from Cons.prems obtain b1 b2 where b1: "utf8_char c = Inr b1"
    and b2: "utf8_encode s = Inr b2" and bs: "bs = b1 @ b2"
    by (auto simp: utf8_encode_def split: sum.splits)
  from utf8_char_decode [OF b1, of "map unat b2"] Cons.IH [OF b2]
  show ?case by (simp add: bs)
qed

lemma utf8_roundtrip: "utf8_encode s = Inr bs \<Longrightarrow> utf8_decode bs = Inr s"
  unfolding utf8_decode_def by (rule utf8_roundtrip_nat)

end
